theory Spec2Isabelle
  imports Main "HOL-Library.FSet"
begin

section \<open>The key pool manager (lib/key-pool.ts)\<close>

text \<open>
  A shallow embedding of the class \<open>KeyPoolManager\<close>. Conventions:
  \<^item> JavaScript numbers that hold counters and array positions are \<open>nat\<close>, timestamps and
    durations in milliseconds are \<open>int\<close> (all of them are integral and exact below \<open>2^53\<close>);
  \<^item> a JavaScript string is a \<open>string\<close>, one \<open>char\<close> per UTF-16 code unit below 256;
  \<^item> a \<open>KeyState\<close> object is referred to by its position in \<open>this.keys\<close>: a mutation
    through the reference \<open>keyState\<close> is an update of the array at that position;
  \<^item> \<open>Date.now()\<close>, \<open>setTimeout\<close> and the caller's \<open>operation\<close> live in an
    explicit world \<open>'w\<close>, which changes only at an \<open>await\<close>: the clock reads that lie
    between two \<open>await\<close>s give the same value;
  \<^item> in \<open>execute\<close> and \<open>executeAll\<close> one call runs at a time, so the pool changes only
    through the call under study; calls that overlap in time on the same pool are modelled
    apart, stretch by stretch between their \<open>await\<close>s (\<open>resume\<close> and \<open>overlapped\<close>);
  \<^item> what an operation rejects with is an object whose \<open>message\<close>, when it has one, is a
    string, as the interface of \<open>execute\<close> asks of it;
  \<^item> \<open>console\<close> output is not modelled.
\<close>

subsection \<open>Types\<close>

text \<open>The field \<open>instance\<close> (the \<open>Rettiwt\<close> client of the key) is called \<open>rettiwt\<close> here. A
  client is referred to by a name, which the constructor of the library gives it.\<close>

record KeyState =
  key :: string
  index :: nat
  rettiwt :: string
  totalRequests :: nat
  successCount :: nat
  failCount :: nat
  rateLimitHits :: nat
  cooldownUntil :: int
  lastUsedAt :: int
  lastErrorAt :: int
  lastError :: "string option"
  isHealthy :: bool

record KeyPoolManager =
  keys :: "KeyState list"
  currentIndex :: nat
  initialized :: bool
  consecutiveAllExhausted :: nat

subsection \<open>Configuration constants\<close>

definition RATE_LIMIT_COOLDOWN_MS :: int where
  "RATE_LIMIT_COOLDOWN_MS = 15 * 60 * 1000"

definition ERROR_COOLDOWN_MS :: int where
  "ERROR_COOLDOWN_MS = 2 * 60 * 1000"

definition MAX_CONSECUTIVE_FAILS :: nat where
  "MAX_CONSECUTIVE_FAILS = 5"

definition ALL_KEYS_EXHAUSTED_WAIT_MS :: int where
  "ALL_KEYS_EXHAUSTED_WAIT_MS = 30 * 1000"

definition REQUEST_DELAY_MS :: int where
  "REQUEST_DELAY_MS = 1500"

subsection \<open>Selection: \<open>isCoolingDown\<close> and \<open>getNextAvailableKey\<close>\<close>

text \<open>The second argument is the value of \<open>Date.now()\<close>.\<close>

definition isCoolingDown :: "KeyState \<Rightarrow> int \<Rightarrow> bool" where
  "isCoolingDown k now = (cooldownUntil k > now)"

text \<open>The \<open>for\<close> loop of \<open>getNextAvailableKey\<close>, from the value \<open>attempt\<close> on. It yields
  the position \<open>idx\<close> of the key the loop returns, or \<open>None\<close> when the loop runs out.\<close>

function scanKeys :: "KeyState list \<Rightarrow> nat fset \<Rightarrow> int \<Rightarrow> nat \<Rightarrow> nat \<Rightarrow> nat option" where
  "scanKeys ks triedKeys now startIndex attempt =
     (if attempt < length ks then
        (let idx = (startIndex + attempt) mod length ks;
             k = ks ! idx
         in if idx |\<in>| triedKeys then scanKeys ks triedKeys now startIndex (attempt + 1)
            else if \<not> isHealthy k then scanKeys ks triedKeys now startIndex (attempt + 1)
            else if isCoolingDown k now then scanKeys ks triedKeys now startIndex (attempt + 1)
            else Some idx)
      else None)"
  by pat_completeness auto
termination
  by (relation "measure (\<lambda>(ks, triedKeys, now, startIndex, attempt). length ks - attempt)") auto

declare scanKeys.simps [simp del]

definition getNextAvailableKey ::
  "nat fset \<Rightarrow> int \<Rightarrow> KeyPoolManager \<Rightarrow> nat option \<times> KeyPoolManager" where
  "getNextAvailableKey triedKeys now p =
     (case scanKeys (keys p) triedKeys now (currentIndex p) 0 of
        Some idx \<Rightarrow> (Some idx, p\<lparr>currentIndex := (idx + 1) mod length (keys p)\<rparr>)
      | None \<Rightarrow> (None, p))"

text \<open>The spec's words: a record is eligible if its index is not in the tried-set, it is
  healthy, and it is not cooling (\<open>cooldownUntil \<le> now\<close>).\<close>

definition eligible :: "KeyPoolManager \<Rightarrow> nat fset \<Rightarrow> int \<Rightarrow> nat \<Rightarrow> bool" where
  "eligible p triedKeys now i =
     (i |\<notin>| triedKeys \<and> isHealthy (keys p ! i) \<and> cooldownUntil (keys p ! i) \<le> now)"

subsection \<open>Cooldown: \<open>getNextCooldownEnd\<close>\<close>

text \<open>\<open>Math.min\<close> is applied to a non-empty argument list only (the empty case returns
  before), so it is \<open>min_list\<close>.\<close>

definition getNextCooldownEnd :: "int \<Rightarrow> KeyPoolManager \<Rightarrow> int" where
  "getNextCooldownEnd now p =
     (let coolingKeys = filter (\<lambda>k. cooldownUntil k > now) (keys p)
      in if length coolingKeys = 0 then 0
         else (let earliest = min_list (map cooldownUntil coolingKeys)
               in earliest - now))"

subsection \<open>Strings\<close>

text \<open>\<open>s.includes(t)\<close>, here \<open>str_includes s t\<close>: \<open>t\<close> occurs in \<open>s\<close> at some position.\<close>

definition startsWith :: "string \<Rightarrow> string \<Rightarrow> bool" where
  "startsWith s t = (take (length t) s = t)"

fun str_includes :: "string \<Rightarrow> string \<Rightarrow> bool" where
  "str_includes [] t = (t = [])"
| "str_includes (c # cs) t = (startsWith (c # cs) t \<or> str_includes cs t)"

text \<open>\<open>toLowerCase\<close> on code units below 256: the letters \<open>A\<close> to \<open>Z\<close> and the
  Latin-1 capitals \<open>0xC0\<close> to \<open>0xDE\<close> (without the multiplication sign \<open>0xD7\<close>) move up by
  32, every other code unit stays.\<close>

definition toLowerChar :: "char \<Rightarrow> char" where
  "toLowerChar c =
     (let n = (of_char c :: nat)
      in if (65 \<le> n \<and> n \<le> 90) \<or> (192 \<le> n \<and> n \<le> 222 \<and> n \<noteq> 215)
         then char_of (n + 32) else c)"

definition toLowerCase :: "string \<Rightarrow> string" where
  "toLowerCase s = map toLowerChar s"

text \<open>The white space and line terminators that \<open>trim\<close> strips, below 256: TAB, LF, VT,
  FF, CR, SP and NBSP.\<close>

definition isWhiteSpace :: "char \<Rightarrow> bool" where
  "isWhiteSpace c = ((of_char c :: nat) \<in> {9, 10, 11, 12, 13, 32, 160})"

definition trim :: "string \<Rightarrow> string" where
  "trim s = rev (dropWhile isWhiteSpace (rev (dropWhile isWhiteSpace s)))"

text \<open>\<open>s.split(',')\<close>: the segments between the commas, empty ones included; the empty
  string gives one empty segment.\<close>

fun split_comma :: "string \<Rightarrow> string list" where
  "split_comma [] = [[]]"
| "split_comma (c # cs) =
     (if c = CHR '','' then [] # split_comma cs
      else (case split_comma cs of
              [] \<Rightarrow> [[c]]
            | seg # segs \<Rightarrow> (c # seg) # segs))"

subsection \<open>Errors\<close>

text \<open>The value an operation rejects with: its \<open>message\<close> (\<open>None\<close> when it has none), its
  \<open>code\<close> (\<open>None\<close> when it has none or when it is not an integral number, which \<open>===\<close>
  never equates with 88 or 429) and the text \<open>String(error)\<close>.\<close>

record ErrorValue =
  message :: "string option"
  code :: "int option"
  asString :: string

text \<open>What the methods of the class throw. The first three are its own
  \<open>throw new Error(...)\<close>, with the values their messages interpolate; the last is what the
  constructor of a client throws inside \<open>initialize\<close>, which nothing catches:
  \<^item> \<open>ConfigurationError\<close>: "No RETTIWT_API_KEYS found. Set them in .env as comma-separated
    values.";
  \<^item> \<open>NotInitializedError\<close>: "Key pool not initialized. Call initialize() first.";
  \<^item> \<open>PoolExhaustedError n name\<close>: "[KEY POOL] All \<open>n\<close> keys exhausted for "\<open>name\<close>". Check
    your API keys and rate limits.";
  \<^item> \<open>ClientError e\<close>: the value \<open>e\<close> that \<open>new Rettiwt(...)\<close> threw.\<close>

datatype Error =
  ConfigurationError
| NotInitializedError
| PoolExhaustedError nat string
| ClientError ErrorValue

subsection \<open>\<open>isRateLimitError\<close> and \<open>maskKey\<close>\<close>

definition isRateLimitError :: "ErrorValue \<Rightarrow> bool" where
  "isRateLimitError error =
     (let msg = toLowerCase (case message error of Some m \<Rightarrow> m | None \<Rightarrow> [])
      in str_includes msg ''rate limit'' \<or>
         str_includes msg ''too many requests'' \<or>
         code error = Some 88 \<or>
         code error = Some 429)"

definition maskKey :: "string \<Rightarrow> string" where
  "maskKey k =
     (if length k \<le> 12 then ''***''
      else take 6 k @ ''...'' @ drop (length k - 6) k)"

subsection \<open>\<open>initialize\<close>\<close>

definition newKeyPoolManager :: KeyPoolManager where
  "newKeyPoolManager =
     \<lparr>keys = [], currentIndex = 0, initialized = False, consecutiveAllExhausted = 0\<rparr>"

definition keyList :: "string \<Rightarrow> string list" where
  "keyList apiKeys = filter (\<lambda>k. length k > 0) (map trim (split_comma apiKeys))"

text \<open>The constructor \<open>new Rettiwt({ apiKey: key, logging: false })\<close> is code of the
  library \<open>rettiwt-api\<close>, not of this repository: it is a parameter of \<open>initialize\<close>. Given
  the key it returns the client, or it throws.\<close>

type_synonym RettiwtConstructor = "string \<Rightarrow> ErrorValue + string"

text \<open>The object that the callback of \<open>keyList.map\<close> returns, the client being built.\<close>

definition newKeyState :: "string \<Rightarrow> nat \<times> string \<Rightarrow> KeyState" where
  "newKeyState client = (\<lambda>(i, k).
     \<lparr>key = k, index = i, rettiwt = client,
      totalRequests = 0, successCount = 0, failCount = 0, rateLimitHits = 0,
      cooldownUntil = 0, lastUsedAt = 0, lastErrorAt = 0, lastError = None,
      isHealthy = True\<rparr>)"

text \<open>\<open>keyList.map((key, index) => ...)\<close>, entry by entry in the order of the list: the
  first constructor call that throws ends the map, and \<open>initialize\<close> with it.\<close>

fun mapKeyList :: "RettiwtConstructor \<Rightarrow> (nat \<times> string) list \<Rightarrow> ErrorValue + KeyState list" where
  "mapKeyList newRettiwt [] = Inr []"
| "mapKeyList newRettiwt ((i, k) # entries) =
     (case newRettiwt k of
        Inl e \<Rightarrow> Inl e
      | Inr client \<Rightarrow>
          (case mapKeyList newRettiwt entries of
             Inl e \<Rightarrow> Inl e
           | Inr ks \<Rightarrow> Inr (newKeyState client (i, k) # ks)))"

text \<open>A method returns what it throws or returns, and the pool as it leaves it. The map
  runs before \<open>this.keys\<close> and \<open>this.initialized\<close> are assigned: when it throws, the pool is
  as it was.\<close>

definition initialize ::
  "RettiwtConstructor \<Rightarrow> string \<Rightarrow> KeyPoolManager \<Rightarrow> (Error + unit) \<times> KeyPoolManager" where
  "initialize newRettiwt apiKeys p =
     (if initialized p then (Inr (), p)
      else if length (keyList apiKeys) = 0 then (Inl ConfigurationError, p)
      else (case mapKeyList newRettiwt (enumerate 0 (keyList apiKeys)) of
              Inl e \<Rightarrow> (Inl (ClientError e), p)
            | Inr ks \<Rightarrow> (Inr (), p\<lparr>keys := ks, initialized := True\<rparr>)))"

subsection \<open>\<open>resetKey\<close> and \<open>resetAll\<close>\<close>

definition resetState :: "KeyState \<Rightarrow> KeyState" where
  "resetState k = k\<lparr>cooldownUntil := 0, failCount := 0, isHealthy := True\<rparr>"

text \<open>\<open>this.keys[index]\<close> is \<open>undefined\<close> outside the array, and the method does nothing
  then.\<close>

definition resetKey :: "int \<Rightarrow> KeyPoolManager \<Rightarrow> KeyPoolManager" where
  "resetKey i p =
     (if 0 \<le> i \<and> nat i < length (keys p)
      then p\<lparr>keys := (keys p)[nat i := resetState (keys p ! nat i)]\<rparr>
      else p)"

definition resetAll :: "KeyPoolManager \<Rightarrow> KeyPoolManager" where
  "resetAll p = p\<lparr>keys := map resetState (keys p), consecutiveAllExhausted := 0\<rparr>"

subsection \<open>\<open>execute\<close>\<close>

text \<open>The runtime: \<open>Date_now\<close> reads the clock of a world; \<open>sleep ms\<close> is the world after
  \<open>await this.sleep(ms)\<close>. An operation takes the client and the world and settles: it
  is fulfilled with a result or rejected with an error value, and leaves a new world.\<close>

record 'w Runtime =
  Date_now :: "'w \<Rightarrow> int"
  sleep :: "int \<Rightarrow> 'w \<Rightarrow> 'w"

datatype 'a Settled = Fulfilled 'a | Rejected ErrorValue

type_synonym ('a, 'w) Operation = "string \<Rightarrow> 'w \<Rightarrow> 'a Settled \<times> 'w"

text \<open>How one pass through the body of the \<open>while\<close> loop ends: with \<open>continue\<close> (and the
  tried-set, pool and world at that moment), with \<open>break\<close>, or with \<open>return result\<close>.\<close>

datatype ('a, 'w) Pass =
  Continue "nat fset" KeyPoolManager 'w
| Break KeyPoolManager 'w
| Return 'a KeyPoolManager 'w

definition updateKey ::
  "nat \<Rightarrow> (KeyState \<Rightarrow> KeyState) \<Rightarrow> KeyPoolManager \<Rightarrow> KeyPoolManager" where
  "updateKey idx f p = p\<lparr>keys := (keys p)[idx := f (keys p ! idx)]\<rparr>"

text \<open>The statements after \<open>await operation(...)\<close> in the \<open>try\<close> block.\<close>

definition onSuccess :: "KeyState \<Rightarrow> KeyState" where
  "onSuccess k = k\<lparr>successCount := successCount k + 1, isHealthy := True, failCount := 0\<rparr>"

text \<open>The \<open>catch\<close> block; \<open>now\<close> is \<open>Date.now()\<close> there.\<close>

definition onError :: "ErrorValue \<Rightarrow> int \<Rightarrow> KeyState \<Rightarrow> KeyState" where
  "onError error now k =
     (let isRateLimit = isRateLimitError error;
          k1 = k\<lparr>lastErrorAt := now,
                 lastError := Some (case message error of
                                      None \<Rightarrow> asString error
                                    | Some m \<Rightarrow> if m = [] then asString error else m)\<rparr>
      in if isRateLimit then
           k1\<lparr>rateLimitHits := rateLimitHits k1 + 1,
              cooldownUntil := now + RATE_LIMIT_COOLDOWN_MS\<rparr>
         else
           (let k2 = k1\<lparr>failCount := failCount k1 + 1,
                        cooldownUntil := now + ERROR_COOLDOWN_MS\<rparr>
            in if failCount k2 \<ge> MAX_CONSECUTIVE_FAILS then k2\<lparr>isHealthy := False\<rparr> else k2))"

text \<open>The minimum delay between requests on the same key, at the head of the \<open>try\<close>
  block: the world after it.\<close>

definition enforceRequestDelay :: "'w Runtime \<Rightarrow> KeyState \<Rightarrow> 'w \<Rightarrow> 'w" where
  "enforceRequestDelay rt keyState w =
     (let timeSinceLastUse = Date_now rt w - lastUsedAt keyState
      in if timeSinceLastUse < REQUEST_DELAY_MS \<and> lastUsedAt keyState > 0
         then sleep rt (REQUEST_DELAY_MS - timeSinceLastUse) w else w)"

text \<open>One pass through the body of the \<open>while\<close> loop.\<close>

definition executeBody ::
  "'w Runtime \<Rightarrow> ('a, 'w) Operation \<Rightarrow> nat fset \<Rightarrow> KeyPoolManager \<Rightarrow> 'w \<Rightarrow> ('a, 'w) Pass" where
  "executeBody rt operation triedKeys p w =
     (case getNextAvailableKey triedKeys (Date_now rt w) p of
        (None, p0) \<Rightarrow>
          (let nextAvailableIn = getNextCooldownEnd (Date_now rt w) p0
           in if nextAvailableIn > 0 then
                (let waitTime = min nextAvailableIn ALL_KEYS_EXHAUSTED_WAIT_MS;
                     p1 = p0\<lparr>consecutiveAllExhausted := consecutiveAllExhausted p0 + 1\<rparr>;
                     w1 = sleep rt waitTime w
                 in Continue {||} p1 w1)
              else Break p0 w)
      | (Some idx, p0) \<Rightarrow>
          (let keyState = keys p0 ! idx;
               triedKeys1 = finsert (index keyState) triedKeys;
               w1 = enforceRequestDelay rt keyState w;
               p1 = updateKey idx (\<lambda>k. k\<lparr>lastUsedAt := Date_now rt w1,
                                           totalRequests := totalRequests k + 1\<rparr>) p0
           in case operation (rettiwt keyState) w1 of
                (Fulfilled result, w2) \<Rightarrow>
                  Return result ((updateKey idx onSuccess p1)\<lparr>consecutiveAllExhausted := 0\<rparr>) w2
              | (Rejected error, w2) \<Rightarrow>
                  Continue triedKeys1 (updateKey idx (onError error (Date_now rt w2)) p1) w2))"

text \<open>The \<open>while\<close> loop with the \<open>throw\<close> after it. The loop need not end: \<open>None\<close> is a
  call that never settles. The name of the operation is always passed (the source defaults
  it to \<open>request\<close>).\<close>

partial_function (option) executeLoop ::
  "'w Runtime \<Rightarrow> ('a, 'w) Operation \<Rightarrow> string \<Rightarrow> nat fset \<Rightarrow> KeyPoolManager \<Rightarrow> 'w
     \<Rightarrow> ((Error + 'a) \<times> KeyPoolManager \<times> 'w) option" where
  "executeLoop rt operation operationName triedKeys p w =
     (if fcard triedKeys < length (keys p) then
        (case executeBody rt operation triedKeys p w of
           Continue triedKeys' p' w' \<Rightarrow> executeLoop rt operation operationName triedKeys' p' w'
         | Break p' w' \<Rightarrow> Some (Inl (PoolExhaustedError (length (keys p')) operationName), p', w')
         | Return result p' w' \<Rightarrow> Some (Inr result, p', w'))
      else Some (Inl (PoolExhaustedError (length (keys p)) operationName), p, w))"

declare executeLoop.simps [code]

definition execute ::
  "'w Runtime \<Rightarrow> ('a, 'w) Operation \<Rightarrow> string \<Rightarrow> KeyPoolManager \<Rightarrow> 'w
     \<Rightarrow> ((Error + 'a) \<times> KeyPoolManager \<times> 'w) option" where
  "execute rt operation operationName p w =
     (if \<not> initialized p \<or> length (keys p) = 0 then Some (Inl NotInitializedError, p, w)
      else executeLoop rt operation operationName {||} p w)"

subsection \<open>Calls of \<open>execute\<close> that overlap\<close>

text \<open>\<open>execute\<close> is \<open>async\<close>: at each \<open>await\<close> it gives way, and another call of \<open>execute\<close> on
  the same pool may run its own code up to its next \<open>await\<close>. The stretches of one attempt
  between the \<open>await\<close>s are: the two assignments before \<open>await operation(...)\<close>, the
  statements after it, and the \<open>catch\<close> block. \<open>idx\<close> is the position of \<open>keyState\<close> in
  \<open>this.keys\<close>, \<open>now\<close> the value of \<open>Date.now()\<close>.\<close>

definition beforeOperation :: "int \<Rightarrow> nat \<Rightarrow> KeyPoolManager \<Rightarrow> KeyPoolManager" where
  "beforeOperation now idx p =
     updateKey idx (\<lambda>k. k\<lparr>lastUsedAt := now, totalRequests := totalRequests k + 1\<rparr>) p"

definition afterFulfilled :: "nat \<Rightarrow> KeyPoolManager \<Rightarrow> KeyPoolManager" where
  "afterFulfilled idx p = (updateKey idx onSuccess p)\<lparr>consecutiveAllExhausted := 0\<rparr>"

definition afterRejected :: "ErrorValue \<Rightarrow> int \<Rightarrow> nat \<Rightarrow> KeyPoolManager \<Rightarrow> KeyPoolManager" where
  "afterRejected error now idx p = updateKey idx (onError error now) p"

text \<open>Where a call is when it has given way: in the \<open>await this.sleep(...)\<close> of the
  minimum delay with the key at a position selected, in \<open>await operation(...)\<close> with that
  key, in the \<open>await this.sleep(waitTime)\<close> of the exhausted pool; or it has returned or
  thrown. The tried-set is a local of the call and goes with it.\<close>

datatype 'a Call =
  Delayed nat "nat fset"
| Invoked nat "nat fset"
| Waiting
| Ended "Error + 'a"

text \<open>From the head of the \<open>while\<close> loop to the next \<open>await\<close> or to the \<open>throw\<close> after the
  loop, at the clock value \<open>now\<close>.\<close>

definition fromLoopHead ::
  "string \<Rightarrow> int \<Rightarrow> nat fset \<Rightarrow> KeyPoolManager \<Rightarrow> 'a Call \<times> KeyPoolManager" where
  "fromLoopHead operationName now triedKeys p =
     (if fcard triedKeys < length (keys p) then
        (case getNextAvailableKey triedKeys now p of
           (None, p0) \<Rightarrow>
             (if getNextCooldownEnd now p0 > 0
              then (Waiting, p0\<lparr>consecutiveAllExhausted := consecutiveAllExhausted p0 + 1\<rparr>)
              else (Ended (Inl (PoolExhaustedError (length (keys p0)) operationName)), p0))
         | (Some idx, p0) \<Rightarrow>
             (let keyState = keys p0 ! idx;
                  triedKeys1 = finsert (index keyState) triedKeys;
                  timeSinceLastUse = now - lastUsedAt keyState
              in if timeSinceLastUse < REQUEST_DELAY_MS \<and> lastUsedAt keyState > 0
                 then (Delayed idx triedKeys1, p0)
                 else (Invoked idx triedKeys1, beforeOperation now idx p0)))
      else (Ended (Inl (PoolExhaustedError (length (keys p)) operationName)), p))"

text \<open>What makes a call run again: it is made (with the name of its operation), its sleep
  is over, or its operation settles. \<open>resume now event\<close> runs the call of the event from
  where it is to its next \<open>await\<close>, on the pool that all calls share, at the clock value
  \<open>now\<close>. An event that does not fit where the call is changes nothing.\<close>

datatype 'a Event =
  Enter nat string
| Wake nat
| Settle nat "'a Settled"

type_synonym 'a Calls = "nat \<Rightarrow> (string \<times> 'a Call) option"

fun resume :: "int \<Rightarrow> 'a Event \<Rightarrow> 'a Calls \<times> KeyPoolManager \<Rightarrow> 'a Calls \<times> KeyPoolManager" where
  "resume now (Enter c operationName) (calls, p) =
     (if \<not> initialized p \<or> length (keys p) = 0
      then (calls(c \<mapsto> (operationName, Ended (Inl NotInitializedError))), p)
      else (case fromLoopHead operationName now {||} p of
              (st, p') \<Rightarrow> (calls(c \<mapsto> (operationName, st)), p')))"
| "resume now (Wake c) (calls, p) =
     (case calls c of
        Some (operationName, Waiting) \<Rightarrow>
          (case fromLoopHead operationName now {||} p of
             (st, p') \<Rightarrow> (calls(c \<mapsto> (operationName, st)), p'))
      | Some (operationName, Delayed idx triedKeys) \<Rightarrow>
          (calls(c \<mapsto> (operationName, Invoked idx triedKeys)), beforeOperation now idx p)
      | _ \<Rightarrow> (calls, p))"
| "resume now (Settle c outcome) (calls, p) =
     (case calls c of
        Some (operationName, Invoked idx triedKeys) \<Rightarrow>
          (case outcome of
             Fulfilled result \<Rightarrow>
               (calls(c \<mapsto> (operationName, Ended (Inr result))), afterFulfilled idx p)
           | Rejected error \<Rightarrow>
               (case fromLoopHead operationName now triedKeys (afterRejected error now idx p) of
                  (st, p') \<Rightarrow> (calls(c \<mapsto> (operationName, st)), p')))
      | _ \<Rightarrow> (calls, p))"

fun overlapped ::
  "(int \<times> 'a Event) list \<Rightarrow> 'a Calls \<times> KeyPoolManager \<Rightarrow> 'a Calls \<times> KeyPoolManager" where
  "overlapped [] s = s"
| "overlapped ((now, event) # events) s = overlapped events (resume now event s)"

section \<open>Notions of the specification\<close>

text \<open>The message contains \<open>t\<close> when compared case-insensitively: some stretch of \<open>s\<close>
  equals \<open>t\<close> up to the case of its letters.\<close>

definition containsIgnoringCase :: "string \<Rightarrow> string \<Rightarrow> bool" where
  "containsIgnoringCase s t =
     (\<exists>pre mid post. s = pre @ mid @ post \<and> toLowerCase mid = toLowerCase t)"

text \<open>The first and the last \<open>n\<close> characters of a string.\<close>

definition firstChars :: "nat \<Rightarrow> string \<Rightarrow> string" where
  "firstChars n s = take n s"

definition lastChars :: "nat \<Rightarrow> string \<Rightarrow> string" where
  "lastChars n s = rev (take n (rev s))"

text \<open>Splitting on commas: the segments, joined by commas again, are the input, and no
  segment holds a comma. Trimming: what is cut off at both ends is white space, and what is
  left neither starts nor ends with white space.\<close>

fun join_comma :: "string list \<Rightarrow> string" where
  "join_comma [] = []"
| "join_comma [seg] = seg"
| "join_comma (seg # seg' # segs) = seg @ CHR '','' # join_comma (seg' # segs)"

definition isCommaSplit :: "string \<Rightarrow> string list \<Rightarrow> bool" where
  "isCommaSplit s segs \<longleftrightarrow>
     segs \<noteq> [] \<and> join_comma segs = s \<and> (\<forall>seg\<in>set segs. CHR '','' \<notin> set seg)"

definition isTrimOf :: "string \<Rightarrow> string \<Rightarrow> bool" where
  "isTrimOf s t \<longleftrightarrow>
     (\<exists>pre post. s = pre @ t @ post \<and>
        (\<forall>c\<in>set pre. isWhiteSpace c) \<and> (\<forall>c\<in>set post. isWhiteSpace c) \<and>
        (t \<noteq> [] \<longrightarrow> \<not> isWhiteSpace (hd t) \<and> \<not> isWhiteSpace (last t)))"

text \<open>A record as \<open>initialize\<close> is to create it: healthy, not cooling, all counters zero,
  never used; here with a client named after its key.\<close>

definition freshKeyState :: "nat \<Rightarrow> string \<Rightarrow> KeyState" where
  "freshKeyState i k =
     \<lparr>key = k, index = i, rettiwt = k,
      totalRequests = 0, successCount = 0, failCount = 0, rateLimitHits = 0,
      cooldownUntil = 0, lastUsedAt = 0, lastErrorAt = 0, lastError = None,
      isHealthy = True\<rparr>"

text \<open>The pool as a pass leaves it.\<close>

fun passPool :: "('a, 'w) Pass \<Rightarrow> KeyPoolManager" where
  "passPool (Continue triedKeys p w) = p"
| "passPool (Break p w) = p"
| "passPool (Return result p w) = p"

text \<open>A sequence of calls of \<open>execute\<close>, each made when the one before has settled. An
  entry holds what happens to the world before the call, the operation, and its name. The
  result is the list of what the calls returned or threw, the pool and the world at the
  end; it is \<open>None\<close> when one of the calls never settles.\<close>

fun executeAll ::
  "'w Runtime \<Rightarrow> (('w \<Rightarrow> 'w) \<times> ('a, 'w) Operation \<times> string) list \<Rightarrow> KeyPoolManager \<Rightarrow> 'w
     \<Rightarrow> ((Error + 'a) list \<times> KeyPoolManager \<times> 'w) option" where
  "executeAll rt [] p w = Some ([], p, w)"
| "executeAll rt ((between, operation, operationName) # calls) p w =
     (case execute rt operation operationName p (between w) of
        None \<Rightarrow> None
      | Some (r, p', w') \<Rightarrow>
          (case executeAll rt calls p' w' of
             None \<Rightarrow> None
           | Some (rs, p'', w'') \<Rightarrow> Some (r # rs, p'', w'')))"

section \<open>Pool states used as concrete inputs\<close>

text \<open>Three keys: the first cooling until 5000, the second unhealthy, the third usable; the
  cursor is at the second.\<close>

definition selectPool :: KeyPoolManager where
  "selectPool =
     \<lparr>keys = [(newKeyState ''k0'' (0, ''k0''))\<lparr>cooldownUntil := 5000\<rparr>,
              (newKeyState ''k1'' (1, ''k1''))\<lparr>isHealthy := False\<rparr>,
              newKeyState ''k2'' (2, ''k2'')],
      currentIndex = 1, initialized = True, consecutiveAllExhausted = 0\<rparr>"

text \<open>A world for running the model: a clock, and the keys of the clients the operation
  was invoked with, in order. Sleeping moves the clock; an invocation takes 100 ms. The
  operation is rejected with a rate-limit error on the key \<open>k0\<close>, with another error on
  \<open>k1\<close>, and is fulfilled on every other key.\<close>

record World =
  clock :: int
  invoked :: "string list"

definition testRuntime :: "World Runtime" where
  "testRuntime = \<lparr>Date_now = clock, sleep = (\<lambda>ms w. w\<lparr>clock := clock w + max ms 0\<rparr>)\<rparr>"

definition rateLimited :: ErrorValue where
  "rateLimited = \<lparr>message = Some ''Too Many Requests'', code = Some 429,
                   asString = ''Error: Too Many Requests''\<rparr>"

definition serverDown :: ErrorValue where
  "serverDown = \<lparr>message = Some ''socket hang up'', code = None,
                  asString = ''Error: socket hang up''\<rparr>"

definition testOperation :: "(string, World) Operation" where
  "testOperation k w =
     (let w' = w\<lparr>clock := clock w + 100, invoked := invoked w @ [k]\<rparr>
      in if k = ''k0'' then (Rejected rateLimited, w')
         else if k = ''k1'' then (Rejected serverDown, w')
         else (Fulfilled (''tweets via '' @ k), w'))"

definition pool3 :: KeyPoolManager where
  "pool3 = \<lparr>keys = [freshKeyState 0 ''k0'', freshKeyState 1 ''k1'', freshKeyState 2 ''k2''],
             currentIndex = 0, initialized = True, consecutiveAllExhausted = 0\<rparr>"

definition world0 :: World where
  "world0 = \<lparr>clock = 1000000, invoked = []\<rparr>"

text \<open>A pool whose first two keys are cooling and whose third is unhealthy; the pool of
  the single key \<open>k1\<close> as five failed calls leave it, unhealthy, its cooldown over at the
  clock of \<open>world0\<close>; a pool whose second key has failed four times in a row.\<close>

definition coolingPool :: KeyPoolManager where
  "coolingPool =
     \<lparr>keys = [(freshKeyState 0 ''k0'')\<lparr>cooldownUntil := 1900100\<rparr>,
              (freshKeyState 1 ''k1'')\<lparr>cooldownUntil := 1120200\<rparr>,
              (freshKeyState 2 ''k2'')\<lparr>isHealthy := False, failCount := 5\<rparr>],
      currentIndex = 0, initialized = True, consecutiveAllExhausted = 0\<rparr>"

definition unhealthyPool :: KeyPoolManager where
  "unhealthyPool =
     \<lparr>keys = [\<lparr>key = ''k1'', index = 0, rettiwt = ''k1'',
               totalRequests = 5, successCount = 0, failCount = 5, rateLimitHits = 0,
               cooldownUntil = 870500, lastUsedAt = 750400, lastErrorAt = 750500,
               lastError = Some ''socket hang up'', isHealthy = False\<rparr>],
      currentIndex = 0, initialized = True, consecutiveAllExhausted = 0\<rparr>"

definition wornPool :: KeyPoolManager where
  "wornPool =
     \<lparr>keys = [freshKeyState 0 ''k0'', (freshKeyState 1 ''k1'')\<lparr>failCount := 4\<rparr>,
              freshKeyState 2 ''k2''],
      currentIndex = 1, initialized = True, consecutiveAllExhausted = 0\<rparr>"

text \<open>A constructor for running the model. It stands for the library's, which throws on
  a key that is not authentication data: this one throws on a key of fewer than two
  characters, and names the client of any other key after the key.\<close>

definition invalidAuthentication :: ErrorValue where
  "invalidAuthentication =
     \<lparr>message = Some ''Invalid authentication data'', code = None,
      asString = ''Error: Invalid authentication data''\<rparr>"

definition testConstructor :: RettiwtConstructor where
  "testConstructor k = (if length k < 2 then Inl invalidAuthentication else Inr k)"

text \<open>Two and a half minutes pass; the number of distinct keys the operation was invoked
  with between two worlds; an operation that every key rejects with a rate-limit error.\<close>

definition later :: "World \<Rightarrow> World" where
  "later w = w\<lparr>clock := clock w + 150000\<rparr>"

definition credentialsTried :: "World \<Rightarrow> World \<Rightarrow> nat" where
  "credentialsTried w w' = card (set (drop (length (invoked w)) (invoked w')))"

definition alwaysRateLimited :: "(string, World) Operation" where
  "alwaysRateLimited k w =
     (Rejected rateLimited, w\<lparr>clock := clock w + 100, invoked := invoked w @ [k]\<rparr>)"

text \<open>A pool of one key that has failed four times in a row; no call made yet.\<close>

definition lastChancePool :: KeyPoolManager where
  "lastChancePool =
     \<lparr>keys = [(freshKeyState 0 ''k2'')\<lparr>failCount := 4\<rparr>],
      currentIndex = 0, initialized = True, consecutiveAllExhausted = 0\<rparr>"

definition noCalls :: "string Calls" where
  "noCalls = Map.empty"

section \<open>Relations between the pool before and after\<close>

text \<open>An unhealthy record at position \<open>i\<close> is still there and still unhealthy.\<close>

definition staysUnhealthy :: "nat \<Rightarrow> KeyPoolManager \<Rightarrow> KeyPoolManager \<Rightarrow> bool" where
  "staysUnhealthy i p p' \<longleftrightarrow>
     length (keys p') = length (keys p) \<and>
     (i < length (keys p) \<and> \<not> isHealthy (keys p ! i) \<longrightarrow> \<not> isHealthy (keys p' ! i))"

text \<open>Every rejection of the operation is a rate-limit error; no record has gone from
  healthy to unhealthy and no \<open>failCount\<close> has grown.\<close>

definition onlyRateLimits :: "('a, 'w) Operation \<Rightarrow> bool" where
  "onlyRateLimits operation \<longleftrightarrow>
     (\<forall>k w e w2. operation k w = (Rejected e, w2) \<longrightarrow> isRateLimitError e)"

definition noDemotion :: "KeyPoolManager \<Rightarrow> KeyPoolManager \<Rightarrow> bool" where
  "noDemotion p p' \<longleftrightarrow>
     length (keys p') = length (keys p) \<and>
     (\<forall>i<length (keys p).
        (isHealthy (keys p ! i) \<longrightarrow> isHealthy (keys p' ! i)) \<and>
        failCount (keys p' ! i) \<le> failCount (keys p ! i))"

text \<open>No call has given way with the key at position \<open>i\<close> selected.\<close>

definition notInFlightOn :: "nat \<Rightarrow> 'a Calls \<Rightarrow> bool" where
  "notInFlightOn i calls \<longleftrightarrow>
     (\<forall>c name idx T. calls c = Some (name, Delayed idx T) \<or>
        calls c = Some (name, Invoked idx T) \<longrightarrow> idx \<noteq> i)"

section \<open>Verification\<close>

subsection \<open>Properties of the selection\<close>

lemma scanKeys_Some:
  "scanKeys (keys p) T now c a = Some idx \<longleftrightarrow>
     (\<exists>a'. a \<le> a' \<and> a' < length (keys p) \<and> idx = (c + a') mod length (keys p) \<and>
           eligible p T now idx \<and>
           (\<forall>b. a \<le> b \<and> b < a' \<longrightarrow> \<not> eligible p T now ((c + b) mod length (keys p))))"
proof (induction "keys p" T now c a rule: scanKeys.induct)
  case (1 T now c a)
  let ?N = "length (keys p)"
  let ?E = "\<lambda>i. eligible p T now i"
  let ?R = "\<lambda>a. \<exists>a'. a \<le> a' \<and> a' < ?N \<and> idx = (c + a') mod ?N \<and> ?E idx \<and>
                 (\<forall>b. a \<le> b \<and> b < a' \<longrightarrow> \<not> ?E ((c + b) mod ?N))"
  show ?case
  proof (cases "a < ?N")
    case False
    then show ?thesis by (subst scanKeys.simps) auto
  next
    case lt: True
    show ?thesis
    proof (cases "?E ((c + a) mod ?N)")
      case True
      then have "scanKeys (keys p) T now c a = Some ((c + a) mod ?N)"
        using lt by (subst scanKeys.simps) (auto simp: eligible_def isCoolingDown_def Let_def)
      moreover have "?R a \<longleftrightarrow> idx = (c + a) mod ?N"
      proof
        assume "?R a"
        then obtain a' where a': "a \<le> a'" "a' < ?N" "idx = (c + a') mod ?N"
          "\<forall>b. a \<le> b \<and> b < a' \<longrightarrow> \<not> ?E ((c + b) mod ?N)" by blast
        have "a' = a"
        proof (rule ccontr)
          assume "a' \<noteq> a"
          with a'(1) have "a < a'" by simp
          with a'(4) True show False by blast
        qed
        with a'(3) show "idx = (c + a) mod ?N" by simp
      next
        assume "idx = (c + a) mod ?N"
        with True lt show "?R a" by (intro exI [of _ a]) auto
      qed
      ultimately show ?thesis by auto
    next
      case False
      then have step: "scanKeys (keys p) T now c a = scanKeys (keys p) T now c (a + 1)"
        using lt by (subst scanKeys.simps) (auto simp: eligible_def isCoolingDown_def Let_def)
      have IH: "scanKeys (keys p) T now c (a + 1) = Some idx \<longleftrightarrow> ?R (a + 1)"
      proof (cases "(c + a) mod ?N |\<in>| T")
        case True
        then show ?thesis using "1.hyps"(1) [OF lt refl refl] by simp
      next
        case nT: False
        show ?thesis
        proof (cases "isHealthy (keys p ! ((c + a) mod ?N))")
          case False
          then show ?thesis using "1.hyps"(2) [OF lt refl refl nT] by simp
        next
          case True
          with nT False have "isCoolingDown (keys p ! ((c + a) mod ?N)) now"
            by (simp add: eligible_def isCoolingDown_def)
          then show ?thesis using "1.hyps"(3) [OF lt refl refl nT] True by simp
        qed
      qed
      have "?R (a + 1) \<longleftrightarrow> ?R a"
      proof
        assume "?R (a + 1)"
        then obtain a' where a': "a + 1 \<le> a'" "a' < ?N" "idx = (c + a') mod ?N" "?E idx"
          "\<forall>b. a + 1 \<le> b \<and> b < a' \<longrightarrow> \<not> ?E ((c + b) mod ?N)" by blast
        have "\<forall>b. a \<le> b \<and> b < a' \<longrightarrow> \<not> ?E ((c + b) mod ?N)"
        proof (intro allI impI)
          fix b assume b: "a \<le> b \<and> b < a'"
          show "\<not> ?E ((c + b) mod ?N)"
          proof (cases "b = a")
            case True
            with False show ?thesis by simp
          next
            case False
            with b have "a + 1 \<le> b \<and> b < a'" by simp
            with a'(5) show ?thesis by blast
          qed
        qed
        with a' show "?R a" by (intro exI [of _ a']) auto
      next
        assume "?R a"
        then obtain a' where a': "a \<le> a'" "a' < ?N" "idx = (c + a') mod ?N" "?E idx"
          "\<forall>b. a \<le> b \<and> b < a' \<longrightarrow> \<not> ?E ((c + b) mod ?N)" by blast
        from a'(3,4) False have "a' \<noteq> a" by auto
        with a'(1) have "a + 1 \<le> a'" by simp
        with a' show "?R (a + 1)" by (intro exI [of _ a']) auto
      qed
      with step IH show ?thesis by simp
    qed
  qed
qed

lemma scanKeys_None:
  "scanKeys (keys p) T now c a = None \<longleftrightarrow>
     (\<forall>b. a \<le> b \<and> b < length (keys p) \<longrightarrow> \<not> eligible p T now ((c + b) mod length (keys p)))"
proof
  assume N: "scanKeys (keys p) T now c a = None"
  show "\<forall>b. a \<le> b \<and> b < length (keys p) \<longrightarrow> \<not> eligible p T now ((c + b) mod length (keys p))"
  proof (rule ccontr)
    assume "\<not> ?thesis"
    then have ex: "\<exists>b. a \<le> b \<and> b < length (keys p) \<and> eligible p T now ((c + b) mod length (keys p))"
      by blast
    then obtain m where m: "a \<le> m \<and> m < length (keys p) \<and> eligible p T now ((c + m) mod length (keys p))"
      and least: "\<forall>k<m. \<not> (a \<le> k \<and> k < length (keys p) \<and> eligible p T now ((c + k) mod length (keys p)))"
      using exists_least_iff [of "\<lambda>b. a \<le> b \<and> b < length (keys p) \<and> eligible p T now ((c + b) mod length (keys p))"]
      by blast
    have "scanKeys (keys p) T now c a = Some ((c + m) mod length (keys p))"
      unfolding scanKeys_Some
    proof (intro exI [of _ m] conjI allI impI)
      fix b assume "a \<le> b \<and> b < m"
      with least m show "\<not> eligible p T now ((c + b) mod length (keys p))"
        by auto
    qed (use m in simp_all)
    with N show False by simp
  qed
next
  assume A: "\<forall>b. a \<le> b \<and> b < length (keys p) \<longrightarrow> \<not> eligible p T now ((c + b) mod length (keys p))"
  show "scanKeys (keys p) T now c a = None"
  proof (cases "scanKeys (keys p) T now c a")
    case (Some idx)
    then show ?thesis unfolding scanKeys_Some using A by blast
  qed simp
qed

lemma circular_cover:
  assumes "i < (N::nat)"
  shows "\<exists>b<N. (c + b) mod N = i"
proof (intro exI conjI)
  let ?b = "(i + N - c mod N) mod N"
  from assms have N: "0 < N" by simp
  then show "?b < N" by simp
  have "(c + ?b) mod N = (c mod N + (i + N - c mod N)) mod N"
    by (simp add: mod_simps)
  also have "c mod N + (i + N - c mod N) = i + N"
  proof -
    have "c mod N < N" using N by simp
    then show ?thesis by simp
  qed
  also have "(i + N) mod N = i" using assms by simp
  finally show "(c + ?b) mod N = i" .
qed


text \<open>
  Claim C1. For every tried-set and every pool state, \<open>getNextAvailableKey\<close> scans the
  positions \<open>(currentIndex + a) mod N\<close> for \<open>a = 0, 1, ..., N - 1\<close> and returns the first one
  that is eligible (not in the tried-set, healthy, \<open>cooldownUntil \<le> now\<close>); the pool it
  leaves then has the cursor at \<open>(idx + 1) mod N\<close>. It returns nothing exactly when no
  position below \<open>N\<close> is eligible, and leaves the pool as it was in that case.
\<close>

theorem getNextAvailableKey_first_eligible:
  "(\<forall>idx. fst (getNextAvailableKey T now p) = Some idx \<longleftrightarrow>
      (\<exists>a<length (keys p).
          idx = (currentIndex p + a) mod length (keys p) \<and> eligible p T now idx \<and>
          (\<forall>b<a. \<not> eligible p T now ((currentIndex p + b) mod length (keys p))))) \<and>
   (\<forall>idx. fst (getNextAvailableKey T now p) = Some idx \<longrightarrow>
      snd (getNextAvailableKey T now p) = p\<lparr>currentIndex := (idx + 1) mod length (keys p)\<rparr>) \<and>
   (fst (getNextAvailableKey T now p) = None \<longleftrightarrow> (\<forall>i<length (keys p). \<not> eligible p T now i)) \<and>
   (fst (getNextAvailableKey T now p) = None \<longrightarrow> snd (getNextAvailableKey T now p) = p)"
proof (intro conjI allI)
  fix idx
  have "fst (getNextAvailableKey T now p) = scanKeys (keys p) T now (currentIndex p) 0"
    by (simp add: getNextAvailableKey_def split: option.splits)
  then show "fst (getNextAvailableKey T now p) = Some idx \<longleftrightarrow>
      (\<exists>a<length (keys p).
          idx = (currentIndex p + a) mod length (keys p) \<and> eligible p T now idx \<and>
          (\<forall>b<a. \<not> eligible p T now ((currentIndex p + b) mod length (keys p))))"
    by (simp add: scanKeys_Some)
next
  fix idx
  show "fst (getNextAvailableKey T now p) = Some idx \<longrightarrow>
      snd (getNextAvailableKey T now p) = p\<lparr>currentIndex := (idx + 1) mod length (keys p)\<rparr>"
    by (simp add: getNextAvailableKey_def split: option.splits)
next
  have fst_eq: "fst (getNextAvailableKey T now p) = scanKeys (keys p) T now (currentIndex p) 0"
    by (simp add: getNextAvailableKey_def split: option.splits)
  have "(\<forall>b<length (keys p). \<not> eligible p T now ((currentIndex p + b) mod length (keys p)))
          \<longleftrightarrow> (\<forall>i<length (keys p). \<not> eligible p T now i)"
  proof
    assume A: "\<forall>b<length (keys p). \<not> eligible p T now ((currentIndex p + b) mod length (keys p))"
    show "\<forall>i<length (keys p). \<not> eligible p T now i"
    proof (intro allI impI)
      fix i assume "i < length (keys p)"
      then obtain b where "b < length (keys p)" "(currentIndex p + b) mod length (keys p) = i"
        using circular_cover by blast
      with A show "\<not> eligible p T now i" by blast
    qed
  next
    assume A: "\<forall>i<length (keys p). \<not> eligible p T now i"
    show "\<forall>b<length (keys p). \<not> eligible p T now ((currentIndex p + b) mod length (keys p))"
    proof (intro allI impI)
      fix b assume "b < length (keys p)"
      then have "0 < length (keys p)" by (cases "keys p") auto
      then have "(currentIndex p + b) mod length (keys p) < length (keys p)" by simp
      with A show "\<not> eligible p T now ((currentIndex p + b) mod length (keys p))" by blast
    qed
  qed
  with fst_eq show "fst (getNextAvailableKey T now p) = None \<longleftrightarrow>
      (\<forall>i<length (keys p). \<not> eligible p T now i)"
    by (simp add: scanKeys_None)
next
  show "fst (getNextAvailableKey T now p) = None \<longrightarrow> snd (getNextAvailableKey T now p) = p"
    by (simp add: getNextAvailableKey_def split: option.splits)
qed

theorem getNextAvailableKey_first_eligible_witness:
  "fst (getNextAvailableKey {||} 1000 selectPool) = Some 2 \<and>
   snd (getNextAvailableKey {||} 1000 selectPool) = selectPool\<lparr>currentIndex := 0\<rparr> \<and>
   eligible selectPool {||} 1000 2 \<and> \<not> eligible selectPool {||} 1000 1 \<and>
   fst (getNextAvailableKey {||} 1000 (selectPool\<lparr>keys := take 2 (keys selectPool), currentIndex := 0\<rparr>)) = None"
proof -
  have len: "length (keys selectPool) = 3" and cur: "currentIndex selectPool = 1"
    by (simp_all add: selectPool_def)
  have e2: "eligible selectPool {||} 1000 2" and e1: "\<not> eligible selectPool {||} 1000 1"
    by (simp_all add: eligible_def selectPool_def newKeyState_def)
  note T = getNextAvailableKey_first_eligible [of "{||}" 1000 selectPool]
  have "\<exists>a<length (keys selectPool).
          2 = (currentIndex selectPool + a) mod length (keys selectPool) \<and>
          eligible selectPool {||} 1000 2 \<and>
          (\<forall>b<a. \<not> eligible selectPool {||} 1000
                     ((currentIndex selectPool + b) mod length (keys selectPool)))"
    using e1 e2 by (intro exI [of _ 1]) (simp add: len cur)
  with T have f: "fst (getNextAvailableKey {||} 1000 selectPool) = Some 2" by blast
  with T have s: "snd (getNextAvailableKey {||} 1000 selectPool)
      = selectPool\<lparr>currentIndex := (2 + 1) mod length (keys selectPool)\<rparr>" by blast
  let ?q = "selectPool\<lparr>keys := take 2 (keys selectPool), currentIndex := 0\<rparr>"
  have "\<forall>i<length (keys ?q). \<not> eligible ?q {||} 1000 i"
    by (simp add: eligible_def selectPool_def newKeyState_def less_Suc_eq all_conj_distrib numeral_2_eq_2)
  with getNextAvailableKey_first_eligible [of "{||}" 1000 ?q]
  have "fst (getNextAvailableKey {||} 1000 ?q) = None" by blast
  with f s e1 e2 show ?thesis by (simp add: len)
qed

subsection \<open>The classifier\<close>

lemma startsWith_iff: "startsWith s t \<longleftrightarrow> (\<exists>post. s = t @ post)"
proof
  assume "startsWith s t"
  then have "take (length t) s = t" by (simp add: startsWith_def)
  then have "s = t @ drop (length t) s" by (metis append_take_drop_id)
  then show "\<exists>post. s = t @ post" ..
next
  assume "\<exists>post. s = t @ post"
  then show "startsWith s t" by (auto simp: startsWith_def)
qed

lemma str_includes_iff: "str_includes s t \<longleftrightarrow> (\<exists>pre post. s = pre @ t @ post)"
proof (induction s)
  case Nil
  then show ?case by auto
next
  case (Cons c cs)
  show ?case
  proof
    assume "str_includes (c # cs) t"
    then consider "startsWith (c # cs) t" | "str_includes cs t" by auto
    then show "\<exists>pre post. c # cs = pre @ t @ post"
    proof cases
      case 1
      then obtain post where "c # cs = [] @ t @ post" by (auto simp: startsWith_iff)
      then show ?thesis by blast
    next
      case 2
      with Cons.IH obtain pre post where "cs = pre @ t @ post" by blast
      then have "c # cs = (c # pre) @ t @ post" by simp
      then show ?thesis by blast
    qed
  next
    assume "\<exists>pre post. c # cs = pre @ t @ post"
    then obtain pre post where eq: "c # cs = pre @ t @ post" by blast
    show "str_includes (c # cs) t"
    proof (cases pre)
      case Nil
      with eq have "startsWith (c # cs) t" by (auto simp: startsWith_iff)
      then show ?thesis by simp
    next
      case (Cons d pre')
      with eq have "cs = pre' @ t @ post" by simp
      with Cons.IH have "str_includes cs t" by blast
      then show ?thesis by simp
    qed
  qed
qed

lemma includes_toLowerCase:
  assumes "toLowerCase t = t"
  shows "str_includes (toLowerCase s) t \<longleftrightarrow> containsIgnoringCase s t"
proof
  assume "str_includes (toLowerCase s) t"
  then obtain pre post where "map toLowerChar s = pre @ t @ post"
    by (auto simp: str_includes_iff toLowerCase_def)
  then obtain a vs where a: "s = a @ vs" "map toLowerChar vs = t @ post"
    by (metis map_eq_append_conv)
  from a(2) obtain b c where "vs = b @ c" "map toLowerChar b = t"
    by (metis map_eq_append_conv)
  with a(1) have "s = a @ b @ c" "map toLowerChar b = t" by simp_all
  with assms show "containsIgnoringCase s t"
    by (auto simp: containsIgnoringCase_def toLowerCase_def)
next
  assume "containsIgnoringCase s t"
  then obtain pre mid post where "s = pre @ mid @ post" "toLowerCase mid = t"
    using assms by (auto simp: containsIgnoringCase_def)
  then have "toLowerCase s = toLowerCase pre @ t @ toLowerCase post"
    by (auto simp: toLowerCase_def)
  then show "str_includes (toLowerCase s) t" unfolding str_includes_iff by blast
qed

lemma lower_rate_limit: "toLowerCase ''rate limit'' = ''rate limit''"
  by (simp add: toLowerCase_def toLowerChar_def)

lemma lower_too_many: "toLowerCase ''too many requests'' = ''too many requests''"
  by (simp add: toLowerCase_def toLowerChar_def)

text \<open>
  Claim C5. \<open>isRateLimitError\<close> is true if and only if the message of the error (the empty
  string when it has none) contains ``rate limit'' or ``too many requests'' when compared
  case-insensitively, or the code of the error is the number 88 or the number 429.
\<close>

theorem isRateLimitError_iff:
  "isRateLimitError e \<longleftrightarrow>
     containsIgnoringCase (case message e of Some m \<Rightarrow> m | None \<Rightarrow> []) ''rate limit'' \<or>
     containsIgnoringCase (case message e of Some m \<Rightarrow> m | None \<Rightarrow> []) ''too many requests'' \<or>
     code e = Some 88 \<or> code e = Some 429"
  by (simp add: isRateLimitError_def Let_def
        includes_toLowerCase [OF lower_rate_limit] includes_toLowerCase [OF lower_too_many])

theorem isRateLimitError_iff_witness:
  "isRateLimitError \<lparr>message = Some ''Twitter: Rate Limit exceeded'', code = None, asString = ''Error''\<rparr> \<and>
   isRateLimitError \<lparr>message = None, code = Some 88, asString = ''Error''\<rparr> \<and>
   \<not> isRateLimitError \<lparr>message = Some ''timeout'', code = Some 500, asString = ''Error''\<rparr>"
proof -
  have "toLowerCase ''Rate Limit'' = toLowerCase ''rate limit''"
    by (simp add: toLowerCase_def toLowerChar_def char_of_def bit_Suc_0_iff)
  then have "containsIgnoringCase ''Twitter: Rate Limit exceeded'' ''rate limit''"
    unfolding containsIgnoringCase_def
    by (intro exI [of _ "''Twitter: ''"] exI [of _ "''Rate Limit''"] exI [of _ "'' exceeded''"]) simp
  then have 1: "isRateLimitError \<lparr>message = Some ''Twitter: Rate Limit exceeded'', code = None, asString = ''Error''\<rparr>"
    using isRateLimitError_iff [of "\<lparr>message = Some ''Twitter: Rate Limit exceeded'', code = None, asString = ''Error''\<rparr>"]
    by simp
  have 2: "isRateLimitError \<lparr>message = None, code = Some 88, asString = ''Error''\<rparr>"
    using isRateLimitError_iff [of "\<lparr>message = None, code = Some 88, asString = ''Error''\<rparr>"]
    by simp
  have 3: "\<not> isRateLimitError \<lparr>message = Some ''timeout'', code = Some 500, asString = ''Error''\<rparr>"
    by (simp add: isRateLimitError_def toLowerCase_def toLowerChar_def startsWith_def)
  from 1 2 3 show ?thesis by simp
qed


subsection \<open>Masking\<close>

text \<open>
  Claim C9. A key of at most 12 characters is masked as the fixed string \<open>***\<close>. A longer
  key is masked as its first 6 characters, three dots, and its last 6 characters; the mask
  is the same for any two long keys that agree on these 12 characters, so nothing else of
  the key shows in it.
\<close>

theorem maskKey_spec:
  "(length k \<le> 12 \<longrightarrow> maskKey k = ''***'') \<and>
   (length k > 12 \<longrightarrow>
      maskKey k = firstChars 6 k @ ''...'' @ lastChars 6 k \<and>
      length (firstChars 6 k) = 6 \<and> length (lastChars 6 k) = 6 \<and>
      (\<forall>k'. length k' > 12 \<and> firstChars 6 k' = firstChars 6 k \<and> lastChars 6 k' = lastChars 6 k
           \<longrightarrow> maskKey k' = maskKey k))"
proof -
  have last: "lastChars 6 s = drop (length s - 6) s" for s
    by (simp add: lastChars_def take_rev)
  show ?thesis
    by (simp add: maskKey_def last firstChars_def)
qed

theorem maskKey_spec_witness:
  "maskKey ''0123456789'' = ''***'' \<and>
   maskKey ''abcdefghijklmnopqrst'' = ''abcdef...opqrst'' \<and>
   maskKey ''abcdefXXXXXXXXXopqrst'' = maskKey ''abcdefghijklmnopqrst''"
proof -
  note T = maskKey_spec [of "''abcdefghijklmnopqrst''"]
  have 1: "maskKey ''0123456789'' = ''***''"
    using maskKey_spec [of "''0123456789''"] by simp
  have 2: "maskKey ''abcdefghijklmnopqrst'' = ''abcdef...opqrst''"
    using T by (simp add: firstChars_def lastChars_def)
  have "length ''abcdefXXXXXXXXXopqrst'' > 12 \<and>
        firstChars 6 ''abcdefXXXXXXXXXopqrst'' = firstChars 6 ''abcdefghijklmnopqrst'' \<and>
        lastChars 6 ''abcdefXXXXXXXXXopqrst'' = lastChars 6 ''abcdefghijklmnopqrst''"
    by (simp add: firstChars_def lastChars_def)
  moreover have "length ''abcdefghijklmnopqrst'' > 12" by simp
  ultimately have 3: "maskKey ''abcdefXXXXXXXXXopqrst'' = maskKey ''abcdefghijklmnopqrst''"
    using T by blast
  from 1 2 3 show ?thesis by simp
qed

subsection \<open>Initialization\<close>

lemma split_comma_nonempty: "split_comma s \<noteq> []"
  by (induction s) (auto split: list.splits)

lemma split_comma_join: "join_comma (split_comma s) = s"
proof (induction s)
  case Nil
  show ?case by simp
next
  case (Cons c cs)
  obtain seg segs where sp: "split_comma cs = seg # segs"
    using split_comma_nonempty [of cs] by (cases "split_comma cs") auto
  show ?case
  proof (cases "c = CHR '',''")
    case True
    with Cons sp show ?thesis by simp
  next
    case False
    with Cons sp show ?thesis by (cases segs) auto
  qed
qed

lemma split_comma_no_comma: "seg \<in> set (split_comma s) \<Longrightarrow> CHR '','' \<notin> set seg"
  by (induction s arbitrary: seg) (auto split: if_splits list.splits)

lemma split_comma_chars: "seg \<in> set (split_comma s) \<Longrightarrow> set seg \<subseteq> set s"
proof (induction s arbitrary: seg)
  case Nil
  then show ?case by simp
next
  case (Cons c cs)
  obtain x xs where sp: "split_comma cs = x # xs"
    using split_comma_nonempty [of cs] by (cases "split_comma cs") auto
  have x: "set x \<subseteq> set cs" and xs: "\<And>y. y \<in> set xs \<Longrightarrow> set y \<subseteq> set cs"
    using Cons.IH sp by simp_all
  show ?case
  proof (cases "c = CHR '',''")
    case True
    with Cons.prems sp have "seg = [] \<or> seg = x \<or> seg \<in> set xs" by simp
    with x xs show ?thesis by auto
  next
    case False
    with Cons.prems sp have "seg = c # x \<or> seg \<in> set xs" by simp
    with x xs show ?thesis by auto
  qed
qed

lemma isCommaSplit_split_comma: "isCommaSplit s (split_comma s)"
  by (simp add: isCommaSplit_def split_comma_nonempty split_comma_join split_comma_no_comma)

lemma dropWhile_decomp:
  "\<exists>pre. s = pre @ dropWhile P s \<and> (\<forall>c\<in>set pre. P c) \<and>
         (dropWhile P s \<noteq> [] \<longrightarrow> \<not> P (hd (dropWhile P s)))"
proof (intro exI [of _ "takeWhile P s"] conjI)
  show "s = takeWhile P s @ dropWhile P s" by simp
  show "\<forall>c\<in>set (takeWhile P s). P c" by (auto dest: set_takeWhileD)
  show "dropWhile P s \<noteq> [] \<longrightarrow> \<not> P (hd (dropWhile P s))" by (simp add: hd_dropWhile)
qed

lemma isTrimOf_trim: "isTrimOf s (trim s)"
proof -
  let ?W = isWhiteSpace
  define u where "u = dropWhile ?W s"
  define v where "v = dropWhile ?W (rev u)"
  obtain pre where pre: "s = pre @ u" "\<forall>c\<in>set pre. ?W c" "u \<noteq> [] \<longrightarrow> \<not> ?W (hd u)"
    using dropWhile_decomp [of s ?W] unfolding u_def by blast
  obtain q where q: "rev u = q @ v" "\<forall>c\<in>set q. ?W c" "v \<noteq> [] \<longrightarrow> \<not> ?W (hd v)"
    using dropWhile_decomp [of "rev u" ?W] unfolding v_def by blast
  have t: "trim s = rev v" by (simp add: trim_def u_def v_def)
  from q(1) have u: "u = rev v @ rev q" by (metis rev_append rev_rev_ident)
  have s: "s = pre @ trim s @ rev q" unfolding t using pre(1) u by simp
  have ends: "trim s \<noteq> [] \<longrightarrow> \<not> ?W (hd (trim s)) \<and> \<not> ?W (last (trim s))"
  proof (intro impI conjI)
    assume ne: "trim s \<noteq> []"
    then have vne: "v \<noteq> []" by (simp add: t)
    with u have "u \<noteq> []" by simp
    with pre(3) have "\<not> ?W (hd u)" by simp
    moreover from u vne have "hd u = hd (rev v)" by simp
    ultimately show "\<not> ?W (hd (trim s))" by (simp add: t)
    from q(3) vne have "\<not> ?W (hd v)" by simp
    with vne show "\<not> ?W (last (trim s))" by (simp add: t last_rev)
  qed
  from q(2) have wq: "\<forall>c\<in>set (rev q). ?W c" by simp
  from s pre(2) wq ends show ?thesis
    unfolding isTrimOf_def by blast
qed

lemma trim_all_white:
  assumes "\<forall>c\<in>set s. isWhiteSpace c"
  shows "trim s = []"
proof -
  from assms have d: "dropWhile isWhiteSpace s = []" by simp
  show ?thesis unfolding trim_def d by simp
qed

lemma keyList_all_white:
  assumes "\<forall>c\<in>set s. isWhiteSpace c"
  shows "keyList s = []"
proof -
  have "trim seg = []" if "seg \<in> set (split_comma s)" for seg
  proof (rule trim_all_white)
    from split_comma_chars [OF that] assms show "\<forall>c\<in>set seg. isWhiteSpace c" by blast
  qed
  then show ?thesis by (simp add: keyList_def filter_empty_conv)
qed

lemma keyList_parse:
  "\<exists>segs ts. isCommaSplit s segs \<and> list_all2 isTrimOf segs ts \<and>
             keyList s = filter (\<lambda>k. k \<noteq> []) ts"
proof -
  have "isCommaSplit s (split_comma s)" by (rule isCommaSplit_split_comma)
  moreover have "list_all2 isTrimOf (split_comma s) (map trim (split_comma s))"
    by (simp add: list_all2_map2 list_all2_same isTrimOf_trim)
  moreover have "keyList s = filter (\<lambda>k. k \<noteq> []) (map trim (split_comma s))"
    by (simp add: keyList_def)
  ultimately show ?thesis by blast
qed

lemma mapKeyList_length:
  "mapKeyList newRettiwt es = Inr ks \<Longrightarrow> length ks = length es"
proof (induction es arbitrary: ks)
  case Nil
  then show ?case by simp
next
  case (Cons entry es)
  obtain i k where entry: "entry = (i, k)" by (cases entry) auto
  from Cons.prems entry obtain client ks' where
    "mapKeyList newRettiwt es = Inr ks'" and "ks = newKeyState client (i, k) # ks'"
    by (auto split: sum.splits)
  with Cons.IH show ?case by simp
qed

lemma mapKeyList_accepted:
  assumes "\<forall>j<length es. newRettiwt (snd (es ! j)) = Inr (client j)"
  shows "\<exists>ks. mapKeyList newRettiwt es = Inr ks \<and> length ks = length es \<and>
              (\<forall>j<length es. ks ! j = newKeyState (client j) (es ! j))"
  using assms
proof (induction es arbitrary: client)
  case Nil
  then show ?case by simp
next
  case (Cons entry es)
  obtain i k where entry: "entry = (i, k)" by (cases entry) auto
  from Cons.prems have hd: "newRettiwt (snd ((entry # es) ! 0)) = Inr (client 0)" by blast
  then have hd': "newRettiwt k = Inr (client 0)" by (simp add: entry)
  have "\<forall>j<length es. newRettiwt (snd (es ! j)) = Inr (client (Suc j))"
  proof (intro allI impI)
    fix j assume "j < length es"
    then have "Suc j < length (entry # es)" by simp
    with Cons.prems have "newRettiwt (snd ((entry # es) ! Suc j)) = Inr (client (Suc j))" by blast
    then show "newRettiwt (snd (es ! j)) = Inr (client (Suc j))" by simp
  qed
  from Cons.IH [of "\<lambda>j. client (Suc j)", OF this] obtain ks where
    ks: "mapKeyList newRettiwt es = Inr ks" "length ks = length es"
      "\<forall>j<length es. ks ! j = newKeyState (client (Suc j)) (es ! j)" by blast
  let ?ks = "newKeyState (client 0) (i, k) # ks"
  have 1: "mapKeyList newRettiwt (entry # es) = Inr ?ks" by (simp add: entry hd' ks(1))
  have 2: "length ?ks = length (entry # es)" by (simp add: ks(2))
  have 3: "\<forall>j<length (entry # es). ?ks ! j = newKeyState (client j) ((entry # es) ! j)"
  proof (intro allI impI)
    fix j assume j: "j < length (entry # es)"
    show "?ks ! j = newKeyState (client j) ((entry # es) ! j)"
    proof (cases j)
      case 0
      then show ?thesis by (simp add: entry)
    next
      case (Suc j')
      with j ks(3) show ?thesis by simp
    qed
  qed
  from 1 2 3 show ?case by blast
qed

lemma mapKeyList_rejected:
  assumes "i < length es" and "newRettiwt (snd (es ! i)) = Inl e"
      and "\<forall>j<i. \<exists>client. newRettiwt (snd (es ! j)) = Inr client"
  shows "mapKeyList newRettiwt es = Inl e"
  using assms
proof (induction es arbitrary: i)
  case Nil
  then show ?case by simp
next
  case (Cons entry es)
  obtain n k where entry: "entry = (n, k)" by (cases entry) auto
  show ?case
  proof (cases i)
    case 0
    with Cons.prems(2) entry show ?thesis by simp
  next
    case (Suc i')
    with Cons.prems(3) have "\<exists>client. newRettiwt (snd ((entry # es) ! 0)) = Inr client" by blast
    then obtain client where hd: "newRettiwt k = Inr client" by (auto simp: entry)
    from Cons.prems(1) Suc have 1: "i' < length es" by simp
    from Cons.prems(2) Suc have 2: "newRettiwt (snd (es ! i')) = Inl e" by simp
    have 3: "\<forall>j<i'. \<exists>client. newRettiwt (snd (es ! j)) = Inr client"
    proof (intro allI impI)
      fix j assume "j < i'"
      then have "Suc j < i" using Suc by simp
      with Cons.prems(3) have "\<exists>client. newRettiwt (snd ((entry # es) ! Suc j)) = Inr client"
        by blast
      then show "\<exists>client. newRettiwt (snd (es ! j)) = Inr client" by simp
    qed
    from Cons.IH [OF 1 2 3] show ?thesis by (simp add: entry hd)
  qed
qed

text \<open>
  Claim C7, amended. \<open>initialize\<close> splits its input on commas, trims every segment and
  drops the empty ones (\<open>keyList\<close>). An input of white space only gives the empty list. When
  the pool is initialized already, the call changes nothing and throws nothing. Otherwise,
  with an empty list the call throws the configuration error and leaves the pool as it was.
  With \<open>N > 0\<close> entries it constructs a client for each entry in the order of the input:
  when the constructor returns a client for every entry, the call leaves an initialized pool
  of exactly \<open>N\<close> records, the \<open>i\<close>-th built from the \<open>i\<close>-th entry with index \<open>i\<close> and its
  client, healthy, not cooling, and with all counters zero; when the constructor throws on
  an entry, the first such throw is what \<open>initialize\<close> throws, and the pool is as it was, not
  initialized and without records.

  The claim as written has every non-empty list give \<open>N\<close> records. On the input
  \<open>" a, b ,,c "\<close> the list has three entries, the constructor throws on the first, and the
  call leaves no record.
\<close>

theorem initialize_spec:
  "(\<exists>segs ts. isCommaSplit s segs \<and> list_all2 isTrimOf segs ts \<and>
              keyList s = filter (\<lambda>k. k \<noteq> []) ts) \<and>
   ((\<forall>c\<in>set s. isWhiteSpace c) \<longrightarrow> keyList s = []) \<and>
   (initialized p \<longrightarrow> initialize newRettiwt s p = (Inr (), p)) \<and>
   (\<not> initialized p \<and> keyList s = [] \<longrightarrow>
      initialize newRettiwt s p = (Inl ConfigurationError, p)) \<and>
   (\<not> initialized p \<and> keyList s \<noteq> [] \<and>
    (\<forall>i<length (keyList s). newRettiwt (keyList s ! i) = Inr (client i)) \<longrightarrow>
      fst (initialize newRettiwt s p) = Inr () \<and>
      initialized (snd (initialize newRettiwt s p)) \<and>
      length (keys (snd (initialize newRettiwt s p))) = length (keyList s) \<and>
      (\<forall>i<length (keyList s).
          keys (snd (initialize newRettiwt s p)) ! i
            = (freshKeyState i (keyList s ! i))\<lparr>rettiwt := client i\<rparr>) \<and>
      currentIndex (snd (initialize newRettiwt s p)) = currentIndex p \<and>
      consecutiveAllExhausted (snd (initialize newRettiwt s p)) = consecutiveAllExhausted p) \<and>
   (\<not> initialized p \<and> n < length (keyList s) \<and> newRettiwt (keyList s ! n) = Inl e \<and>
    (\<forall>j<n. \<exists>c. newRettiwt (keyList s ! j) = Inr c) \<longrightarrow>
      initialize newRettiwt s p = (Inl (ClientError e), p))"
proof (intro conjI)
  let ?es = "enumerate 0 (keyList s)"
  have nth: "?es ! j = (j, keyList s ! j)" if "j < length (keyList s)" for j
    using that by (simp add: nth_enumerate_eq)
  show "\<exists>segs ts. isCommaSplit s segs \<and> list_all2 isTrimOf segs ts \<and>
              keyList s = filter (\<lambda>k. k \<noteq> []) ts" by (rule keyList_parse)
  show "(\<forall>c\<in>set s. isWhiteSpace c) \<longrightarrow> keyList s = []" by (simp add: keyList_all_white)
  show "initialized p \<longrightarrow> initialize newRettiwt s p = (Inr (), p)" by (simp add: initialize_def)
  show "\<not> initialized p \<and> keyList s = [] \<longrightarrow>
      initialize newRettiwt s p = (Inl ConfigurationError, p)"
    by (simp add: initialize_def)
  show "\<not> initialized p \<and> keyList s \<noteq> [] \<and>
    (\<forall>i<length (keyList s). newRettiwt (keyList s ! i) = Inr (client i)) \<longrightarrow>
      fst (initialize newRettiwt s p) = Inr () \<and>
      initialized (snd (initialize newRettiwt s p)) \<and>
      length (keys (snd (initialize newRettiwt s p))) = length (keyList s) \<and>
      (\<forall>i<length (keyList s).
          keys (snd (initialize newRettiwt s p)) ! i
            = (freshKeyState i (keyList s ! i))\<lparr>rettiwt := client i\<rparr>) \<and>
      currentIndex (snd (initialize newRettiwt s p)) = currentIndex p \<and>
      consecutiveAllExhausted (snd (initialize newRettiwt s p)) = consecutiveAllExhausted p"
  proof
    assume a: "\<not> initialized p \<and> keyList s \<noteq> [] \<and>
      (\<forall>i<length (keyList s). newRettiwt (keyList s ! i) = Inr (client i))"
    then have "\<forall>j<length ?es. newRettiwt (snd (?es ! j)) = Inr (client j)"
      by (simp add: nth)
    from mapKeyList_accepted [OF this] obtain ks where
      ks: "mapKeyList newRettiwt ?es = Inr ks" "length ks = length (keyList s)"
        "\<forall>j<length (keyList s). ks ! j = newKeyState (client j) (?es ! j)" by auto
    from a ks(1) have i: "initialize newRettiwt s p = (Inr (), p\<lparr>keys := ks, initialized := True\<rparr>)"
      by (simp add: initialize_def)
    have "\<forall>j<length (keyList s). ks ! j = (freshKeyState j (keyList s ! j))\<lparr>rettiwt := client j\<rparr>"
      using ks(3) by (simp add: nth newKeyState_def freshKeyState_def)
    with ks(2) show "fst (initialize newRettiwt s p) = Inr () \<and>
      initialized (snd (initialize newRettiwt s p)) \<and>
      length (keys (snd (initialize newRettiwt s p))) = length (keyList s) \<and>
      (\<forall>i<length (keyList s).
          keys (snd (initialize newRettiwt s p)) ! i
            = (freshKeyState i (keyList s ! i))\<lparr>rettiwt := client i\<rparr>) \<and>
      currentIndex (snd (initialize newRettiwt s p)) = currentIndex p \<and>
      consecutiveAllExhausted (snd (initialize newRettiwt s p)) = consecutiveAllExhausted p"
      by (simp add: i)
  qed
  show "\<not> initialized p \<and> n < length (keyList s) \<and> newRettiwt (keyList s ! n) = Inl e \<and>
    (\<forall>j<n. \<exists>c. newRettiwt (keyList s ! j) = Inr c) \<longrightarrow>
      initialize newRettiwt s p = (Inl (ClientError e), p)"
  proof
    assume a: "\<not> initialized p \<and> n < length (keyList s) \<and> newRettiwt (keyList s ! n) = Inl e \<and>
      (\<forall>j<n. \<exists>c. newRettiwt (keyList s ! j) = Inr c)"
    then have 1: "n < length ?es" and 2: "newRettiwt (snd (?es ! n)) = Inl e"
      by (simp_all add: nth)
    have 3: "\<forall>j<n. \<exists>c. newRettiwt (snd (?es ! j)) = Inr c"
    proof (intro allI impI)
      fix j assume "j < n"
      with a have "j < length (keyList s)" "\<exists>c. newRettiwt (keyList s ! j) = Inr c" by auto
      then show "\<exists>c. newRettiwt (snd (?es ! j)) = Inr c" by (simp add: nth)
    qed
    from a have ne: "keyList s \<noteq> []" by auto
    from mapKeyList_rejected [OF 1 2 3] a ne
    show "initialize newRettiwt s p = (Inl (ClientError e), p)"
      by (simp add: initialize_def)
  qed
qed

lemma keyList_example: "keyList '' a, b ,,c '' = [''a'', ''b'', ''c'']"
  by (simp add: keyList_def trim_def isWhiteSpace_def)

lemma keyList_blank: "keyList ''  , '' = []"
  by (simp add: keyList_def trim_def isWhiteSpace_def)

lemma keyList_keys: "keyList '' k0, k1 ,,k2 '' = [''k0'', ''k1'', ''k2'']"
  by (simp add: keyList_def trim_def isWhiteSpace_def)

lemma keyList_mixed: "keyList ''k0,b,k2'' = [''k0'', ''b'', ''k2'']"
  by (simp add: keyList_def trim_def isWhiteSpace_def)

theorem initialize_creates_records_counterexample:
  "keyList '' a, b ,,c '' = [''a'', ''b'', ''c''] \<and>
   initialize testConstructor '' a, b ,,c '' newKeyPoolManager
     = (Inl (ClientError invalidAuthentication), newKeyPoolManager) \<and>
   keys newKeyPoolManager = [] \<and> \<not> initialized newKeyPoolManager"
  by (simp add: keyList_example initialize_def testConstructor_def newKeyPoolManager_def
        enumerate_eq_zip)

theorem initialize_spec_witness:
  "initialize testConstructor '' k0, k1 ,,k2 '' newKeyPoolManager = (Inr (), pool3) \<and>
   initialize testConstructor ''k0,b,k2'' newKeyPoolManager
     = (Inl (ClientError invalidAuthentication), newKeyPoolManager) \<and>
   initialize testConstructor ''  , '' newKeyPoolManager
     = (Inl ConfigurationError, newKeyPoolManager) \<and>
   initialize testConstructor ''   '' newKeyPoolManager
     = (Inl ConfigurationError, newKeyPoolManager) \<and>
   initialize testConstructor ''x,y'' pool3 = (Inr (), pool3)"
proof -
  let ?r = "initialize testConstructor '' k0, k1 ,,k2 '' newKeyPoolManager"
  let ?c = "\<lambda>i. [''k0'', ''k1'', ''k2''] ! i"
  have ni: "\<not> initialized newKeyPoolManager" by (simp add: newKeyPoolManager_def)
  have acc: "\<forall>i<length (keyList '' k0, k1 ,,k2 '').
      testConstructor (keyList '' k0, k1 ,,k2 '' ! i) = Inr (?c i)"
    by (simp add: keyList_keys testConstructor_def less_Suc_eq numeral_3_eq_3)
  have ne: "keyList '' k0, k1 ,,k2 '' \<noteq> []" by (simp add: keyList_keys)
  note T = initialize_spec [of "'' k0, k1 ,,k2 ''" newKeyPoolManager testConstructor ?c 0
      invalidAuthentication]
  from T [THEN conjunct2, THEN conjunct2, THEN conjunct2, THEN conjunct2, THEN conjunct1,
      THEN mp, OF conjI [OF ni conjI [OF ne acc]]]
  have f: "fst ?r = Inr ()" and ini: "initialized (snd ?r)" and len: "length (keys (snd ?r)) = 3"
    and nth: "\<forall>i<3. keys (snd ?r) ! i
        = (freshKeyState i ([''k0'', ''k1'', ''k2''] ! i))\<lparr>rettiwt := ?c i\<rparr>"
    and cur: "currentIndex (snd ?r) = 0" and ex: "consecutiveAllExhausted (snd ?r) = 0"
    by (simp_all add: keyList_keys newKeyPoolManager_def)
  from nth have n: "keys (snd ?r) ! 0 = freshKeyState 0 ''k0''"
    "keys (snd ?r) ! 1 = freshKeyState 1 ''k1''" "keys (snd ?r) ! 2 = freshKeyState 2 ''k2''"
    by (simp_all add: freshKeyState_def)
  from len obtain a b c where abc: "keys (snd ?r) = [a, b, c]"
    by (auto simp: numeral_3_eq_3 length_Suc_conv)
  with n have ks: "keys (snd ?r)
      = [freshKeyState 0 ''k0'', freshKeyState 1 ''k1'', freshKeyState 2 ''k2'']" by simp
  have "snd ?r = pool3" using ini ks cur ex by (simp add: pool3_def)
  with f have 1: "?r = (Inr (), pool3)" by (cases ?r) simp
  have rej: "1 < length (keyList ''k0,b,k2'')"
    "testConstructor (keyList ''k0,b,k2'' ! 1) = Inl invalidAuthentication"
    "\<forall>j<1. \<exists>c. testConstructor (keyList ''k0,b,k2'' ! j) = Inr c"
    by (simp_all add: keyList_mixed testConstructor_def)
  from initialize_spec [of "''k0,b,k2''" newKeyPoolManager testConstructor ?c 1
      invalidAuthentication, THEN conjunct2, THEN conjunct2, THEN conjunct2, THEN conjunct2,
      THEN conjunct2, THEN mp, OF conjI [OF ni conjI [OF rej(1) conjI [OF rej(2) rej(3)]]]]
  have 2: "initialize testConstructor ''k0,b,k2'' newKeyPoolManager
     = (Inl (ClientError invalidAuthentication), newKeyPoolManager)" .
  have 3: "initialize testConstructor ''  , '' newKeyPoolManager
      = (Inl ConfigurationError, newKeyPoolManager)"
    using initialize_spec [of "''  , ''" newKeyPoolManager testConstructor ?c 0
        invalidAuthentication] ni
    by (simp add: keyList_blank)
  have "\<forall>c\<in>set ''   ''. isWhiteSpace c" by (simp add: isWhiteSpace_def)
  with initialize_spec [of "''   ''" newKeyPoolManager testConstructor ?c 0
      invalidAuthentication] ni
  have 4: "initialize testConstructor ''   '' newKeyPoolManager
      = (Inl ConfigurationError, newKeyPoolManager)"
    by blast
  have "initialized pool3" by (simp add: pool3_def)
  with initialize_spec [of "''x,y''" pool3 testConstructor ?c 0 invalidAuthentication]
  have 5: "initialize testConstructor ''x,y'' pool3 = (Inr (), pool3)" by blast
  from 1 2 3 4 5 show ?thesis by blast
qed

subsection \<open>One pass through the loop of \<open>execute\<close>\<close>

lemma getNextAvailableKey_Some:
  assumes "fst (getNextAvailableKey T now p) = Some idx"
  shows "idx < length (keys p)" and "eligible p T now idx"
    and "getNextAvailableKey T now p = (Some idx, p\<lparr>currentIndex := (idx + 1) mod length (keys p)\<rparr>)"
proof -
  from assms have sc: "scanKeys (keys p) T now (currentIndex p) 0 = Some idx"
    by (simp add: getNextAvailableKey_def split: option.splits)
  then obtain a where a: "a < length (keys p)" "idx = (currentIndex p + a) mod length (keys p)"
    "eligible p T now idx" unfolding scanKeys_Some by blast
  from a(1) have "0 < length (keys p)" by (cases "keys p") auto
  with a(2) show "idx < length (keys p)" by simp
  from a(3) show "eligible p T now idx" .
  from sc show "getNextAvailableKey T now p
      = (Some idx, p\<lparr>currentIndex := (idx + 1) mod length (keys p)\<rparr>)"
    by (simp add: getNextAvailableKey_def)
qed

lemma getNextAvailableKey_None:
  assumes "fst (getNextAvailableKey T now p) = None"
  shows "getNextAvailableKey T now p = (None, p)"
  using assms by (simp add: getNextAvailableKey_def split: option.splits)

lemma executeBody_fulfilled:
  assumes sel: "fst (getNextAvailableKey T (Date_now rt w) p) = Some idx"
      and op: "operation (rettiwt (keys p ! idx)) (enforceRequestDelay rt (keys p ! idx) w)
                 = (Fulfilled result, w2)"
  shows "executeBody rt operation T p w =
           Return result
             (p\<lparr>currentIndex := (idx + 1) mod length (keys p),
                keys := (keys p)[idx := onSuccess ((keys p ! idx)
                   \<lparr>lastUsedAt := Date_now rt (enforceRequestDelay rt (keys p ! idx) w),
                    totalRequests := totalRequests (keys p ! idx) + 1\<rparr>)],
                consecutiveAllExhausted := 0\<rparr>) w2"
  using getNextAvailableKey_Some(1) [OF sel] op
  by (simp add: executeBody_def getNextAvailableKey_Some(3) [OF sel] Let_def updateKey_def)

lemma executeBody_rejected:
  assumes sel: "fst (getNextAvailableKey T (Date_now rt w) p) = Some idx"
      and op: "operation (rettiwt (keys p ! idx)) (enforceRequestDelay rt (keys p ! idx) w)
                 = (Rejected e, w2)"
  shows "executeBody rt operation T p w =
           Continue (finsert (index (keys p ! idx)) T)
             (p\<lparr>currentIndex := (idx + 1) mod length (keys p),
                keys := (keys p)[idx := onError e (Date_now rt w2) ((keys p ! idx)
                   \<lparr>lastUsedAt := Date_now rt (enforceRequestDelay rt (keys p ! idx) w),
                    totalRequests := totalRequests (keys p ! idx) + 1\<rparr>)]\<rparr>) w2"
  using getNextAvailableKey_Some(1) [OF sel] op
  by (simp add: executeBody_def getNextAvailableKey_Some(3) [OF sel] Let_def updateKey_def)

lemma executeBody_none:
  assumes sel: "fst (getNextAvailableKey T (Date_now rt w) p) = None"
  shows "executeBody rt operation T p w =
           (if getNextCooldownEnd (Date_now rt w) p > 0
            then Continue {||} (p\<lparr>consecutiveAllExhausted := consecutiveAllExhausted p + 1\<rparr>)
                   (sleep rt (min (getNextCooldownEnd (Date_now rt w) p) ALL_KEYS_EXHAUSTED_WAIT_MS) w)
            else Break p w)"
  by (simp add: executeBody_def getNextAvailableKey_None [OF sel] Let_def)

lemma getNextCooldownEnd_Min:
  assumes "\<exists>k\<in>set (keys p). cooldownUntil k > now"
  shows "getNextCooldownEnd now p =
           Min ((\<lambda>k. cooldownUntil k - now) ` {k \<in> set (keys p). cooldownUntil k > now})"
    and "getNextCooldownEnd now p > 0"
proof -
  let ?C = "{k \<in> set (keys p). cooldownUntil k > now}"
  let ?cs = "filter (\<lambda>k. cooldownUntil k > now) (keys p)"
  from assms have ne: "?cs \<noteq> []" by (auto simp: filter_empty_conv)
  then have "map cooldownUntil ?cs \<noteq> []" by simp
  then have ml: "min_list (map cooldownUntil ?cs) = Min (cooldownUntil ` ?C)"
    by (simp add: min_list_Min)
  have fin: "finite (cooldownUntil ` ?C)" and nonempty: "cooldownUntil ` ?C \<noteq> {}"
    using assms by auto
  have g: "getNextCooldownEnd now p = Min (cooldownUntil ` ?C) - now"
    using ne ml by (simp add: getNextCooldownEnd_def Let_def)
  have "mono (\<lambda>x::int. x - now)" by (simp add: mono_def)
  from mono_Min_commute [OF this fin nonempty]
  have "Min (cooldownUntil ` ?C) - now = Min ((\<lambda>x. x - now) ` cooldownUntil ` ?C)" .
  also have "(\<lambda>x. x - now) ` cooldownUntil ` ?C = (\<lambda>k. cooldownUntil k - now) ` ?C"
    by (simp add: image_image)
  finally show "getNextCooldownEnd now p = Min ((\<lambda>k. cooldownUntil k - now) ` ?C)"
    using g by simp
  from Min_in [OF fin nonempty] have "Min (cooldownUntil ` ?C) > now" by auto
  with g show "getNextCooldownEnd now p > 0" by simp
qed

lemma getNextCooldownEnd_zero:
  assumes "\<not> (\<exists>k\<in>set (keys p). cooldownUntil k > now)"
  shows "getNextCooldownEnd now p = 0"
  using assms by (simp add: getNextCooldownEnd_def Let_def filter_empty_conv)

subsection \<open>The claims about one pass\<close>

text \<open>The definitions that running the model on the concrete inputs unfolds.\<close>

lemmas run_defs =
  fcard_fempty fcard_finsert_if getNextAvailableKey_def scanKeys.simps isCoolingDown_def
  freshKeyState_def
  testRuntime_def world0_def testOperation_def pool3_def coolingPool_def unhealthyPool_def
  enforceRequestDelay_def REQUEST_DELAY_MS_def Let_def

text \<open>
  Claim C4. In a pass of the loop in which the selected key's invocation of the operation
  is fulfilled, the pass ends with \<open>return result\<close>: the loop, and with it the call of
  \<open>execute\<close>, returns that result, and the world it leaves is the one the fulfilled
  invocation left, so nothing is invoked after it. In the pool it leaves, the selected record
  has \<open>successCount\<close> one higher, \<open>failCount = 0\<close> and \<open>isHealthy\<close>, and
  \<open>consecutiveAllExhausted\<close> is 0.
\<close>

theorem execute_returns_on_success:
  assumes sel: "fst (getNextAvailableKey T (Date_now rt w) p) = Some idx"
      and op: "operation (rettiwt (keys p ! idx)) (enforceRequestDelay rt (keys p ! idx) w)
                 = (Fulfilled result, w2)"
      and loop: "fcard T < length (keys p)"
  shows "\<exists>p'. executeBody rt operation T p w = Return result p' w2 \<and>
           executeLoop rt operation name T p w = Some (Inr result, p', w2) \<and>
           (T = {||} \<and> initialized p \<longrightarrow>
              execute rt operation name p w = Some (Inr result, p', w2)) \<and>
           successCount (keys p' ! idx) = successCount (keys p ! idx) + 1 \<and>
           failCount (keys p' ! idx) = 0 \<and>
           isHealthy (keys p' ! idx) \<and>
           consecutiveAllExhausted p' = 0"
proof -
  let ?k1 = "(keys p ! idx)\<lparr>lastUsedAt := Date_now rt (enforceRequestDelay rt (keys p ! idx) w),
                              totalRequests := totalRequests (keys p ! idx) + 1\<rparr>"
  let ?p' = "p\<lparr>currentIndex := (idx + 1) mod length (keys p),
               keys := (keys p)[idx := onSuccess ?k1], consecutiveAllExhausted := 0\<rparr>"
  have body: "executeBody rt operation T p w = Return result ?p' w2"
    by (rule executeBody_fulfilled) (fact sel, fact op)
  have lp: "executeLoop rt operation name T p w = Some (Inr result, ?p', w2)"
    by (subst executeLoop.simps) (simp add: loop body)
  have ex: "T = {||} \<and> initialized p \<longrightarrow> execute rt operation name p w = Some (Inr result, ?p', w2)"
    using loop lp by (auto simp: execute_def)
  have idx: "idx < length (keys p)" by (rule getNextAvailableKey_Some(1) [OF sel])
  show ?thesis
    using body lp ex idx by (intro exI [of _ ?p']) (simp add: onSuccess_def)
qed

theorem execute_returns_on_success_witness:
  "fst (getNextAvailableKey {||} (Date_now testRuntime world0) (pool3\<lparr>currentIndex := 2\<rparr>)) = Some 2 \<and>
   (\<exists>p'. execute testRuntime testOperation ''fetch'' (pool3\<lparr>currentIndex := 2\<rparr>) world0
           = Some (Inr ''tweets via k2'', p', \<lparr>clock = 1000100, invoked = [''k2'']\<rparr>) \<and>
         successCount (keys p' ! 2) = 1 \<and> failCount (keys p' ! 2) = 0 \<and>
         isHealthy (keys p' ! 2) \<and> consecutiveAllExhausted p' = 0)"
proof -
  let ?p = "pool3\<lparr>currentIndex := 2\<rparr>"
  have sel: "fst (getNextAvailableKey {||} (Date_now testRuntime world0) ?p) = Some 2"
    by (simp add: run_defs)
  have op: "testOperation (rettiwt (keys ?p ! 2)) (enforceRequestDelay testRuntime (keys ?p ! 2) world0)
      = (Fulfilled ''tweets via k2'', \<lparr>clock = 1000100, invoked = [''k2'']\<rparr>)"
    by (simp add: run_defs)
  have loop: "fcard {||} < length (keys ?p)" by (simp add: pool3_def fcard_fempty)
  have ini: "initialized ?p" and sc: "successCount (keys ?p ! 2) = 0"
    by (simp_all add: pool3_def freshKeyState_def)
  from execute_returns_on_success [of "{||}" testRuntime world0 ?p 2 testOperation _ _ "''fetch''",
      OF sel op loop]
  obtain p' where "execute testRuntime testOperation ''fetch'' ?p world0
           = Some (Inr ''tweets via k2'', p', \<lparr>clock = 1000100, invoked = [''k2'']\<rparr>)"
    and "successCount (keys p' ! 2) = successCount (keys ?p ! 2) + 1"
    and "failCount (keys p' ! 2) = 0" and "isHealthy (keys p' ! 2)"
    and "consecutiveAllExhausted p' = 0"
    using ini by blast
  with sel sc show ?thesis by auto
qed


text \<open>
  Claim C2. In a pass of the loop in which the selected key's invocation of the operation
  is rejected, the record's \<open>lastErrorAt\<close> and \<open>lastError\<close> are set, and: when the error is
  a rate limit, \<open>rateLimitHits\<close> goes up by one, \<open>cooldownUntil\<close> is 15 minutes after the
  clock of the \<open>catch\<close> block, and \<open>failCount\<close> and \<open>isHealthy\<close> stay; otherwise \<open>failCount\<close>
  goes up by one, \<open>cooldownUntil\<close> is 2 minutes after that clock, and the record is
  unhealthy exactly when the new \<open>failCount\<close> is at least 5. The pass ends with \<open>continue\<close>:
  the loop goes on with the key added to the tried-set.
\<close>

theorem execute_failure_handling:
  assumes sel: "fst (getNextAvailableKey T (Date_now rt w) p) = Some idx"
      and op: "operation (rettiwt (keys p ! idx)) (enforceRequestDelay rt (keys p ! idx) w)
                 = (Rejected e, w2)"
      and loop: "fcard T < length (keys p)"
  shows "\<exists>p'. executeBody rt operation T p w = Continue (finsert (index (keys p ! idx)) T) p' w2 \<and>
           executeLoop rt operation name T p w
             = executeLoop rt operation name (finsert (index (keys p ! idx)) T) p' w2 \<and>
           lastErrorAt (keys p' ! idx) = Date_now rt w2 \<and>
           lastError (keys p' ! idx)
             = Some (case message e of None \<Rightarrow> asString e
                     | Some m \<Rightarrow> if m = [] then asString e else m) \<and>
           (isRateLimitError e \<longrightarrow>
              rateLimitHits (keys p' ! idx) = rateLimitHits (keys p ! idx) + 1 \<and>
              cooldownUntil (keys p' ! idx) = Date_now rt w2 + 15 * 60 * 1000 \<and>
              failCount (keys p' ! idx) = failCount (keys p ! idx) \<and>
              isHealthy (keys p' ! idx)) \<and>
           (\<not> isRateLimitError e \<longrightarrow>
              failCount (keys p' ! idx) = failCount (keys p ! idx) + 1 \<and>
              cooldownUntil (keys p' ! idx) = Date_now rt w2 + 2 * 60 * 1000 \<and>
              (\<not> isHealthy (keys p' ! idx) \<longleftrightarrow> failCount (keys p ! idx) + 1 \<ge> 5) \<and>
              rateLimitHits (keys p' ! idx) = rateLimitHits (keys p ! idx))"
proof -
  let ?k1 = "(keys p ! idx)\<lparr>lastUsedAt := Date_now rt (enforceRequestDelay rt (keys p ! idx) w),
                              totalRequests := totalRequests (keys p ! idx) + 1\<rparr>"
  let ?p' = "p\<lparr>currentIndex := (idx + 1) mod length (keys p),
               keys := (keys p)[idx := onError e (Date_now rt w2) ?k1]\<rparr>"
  have body: "executeBody rt operation T p w = Continue (finsert (index (keys p ! idx)) T) ?p' w2"
    by (rule executeBody_rejected) (fact sel, fact op)
  have lp: "executeLoop rt operation name T p w
      = executeLoop rt operation name (finsert (index (keys p ! idx)) T) ?p' w2"
    by (subst executeLoop.simps) (simp add: loop body)
  have idx: "idx < length (keys p)" by (rule getNextAvailableKey_Some(1) [OF sel])
  have h: "isHealthy (keys p ! idx)"
    using getNextAvailableKey_Some(2) [OF sel] by (simp add: eligible_def)
  have fields:
    "lastErrorAt (keys ?p' ! idx) = Date_now rt w2"
    "lastError (keys ?p' ! idx)
       = Some (case message e of None \<Rightarrow> asString e | Some m \<Rightarrow> if m = [] then asString e else m)"
    "isRateLimitError e \<longrightarrow>
       rateLimitHits (keys ?p' ! idx) = rateLimitHits (keys p ! idx) + 1 \<and>
       cooldownUntil (keys ?p' ! idx) = Date_now rt w2 + 15 * 60 * 1000 \<and>
       failCount (keys ?p' ! idx) = failCount (keys p ! idx) \<and>
       isHealthy (keys ?p' ! idx)"
    "\<not> isRateLimitError e \<longrightarrow>
       failCount (keys ?p' ! idx) = failCount (keys p ! idx) + 1 \<and>
       cooldownUntil (keys ?p' ! idx) = Date_now rt w2 + 2 * 60 * 1000 \<and>
       (\<not> isHealthy (keys ?p' ! idx) \<longleftrightarrow> failCount (keys p ! idx) + 1 \<ge> 5) \<and>
       rateLimitHits (keys ?p' ! idx) = rateLimitHits (keys p ! idx)"
    using h idx
    by (simp_all add: onError_def Let_def RATE_LIMIT_COOLDOWN_MS_def ERROR_COOLDOWN_MS_def
          MAX_CONSECUTIVE_FAILS_def)
  show ?thesis
    using body lp fields by (intro exI [of _ ?p'] conjI)
qed

theorem execute_failure_handling_witness:
  "(\<exists>p'. executeBody testRuntime testOperation {||} pool3 world0
           = Continue {|0|} p' \<lparr>clock = 1000100, invoked = [''k0'']\<rparr> \<and>
         rateLimitHits (keys p' ! 0) = 1 \<and> cooldownUntil (keys p' ! 0) = 1900100 \<and>
         failCount (keys p' ! 0) = 0 \<and> isHealthy (keys p' ! 0) \<and>
         lastErrorAt (keys p' ! 0) = 1000100 \<and> lastError (keys p' ! 0) = Some ''Too Many Requests'') \<and>
   (\<exists>p'. executeBody testRuntime testOperation {||} wornPool world0
           = Continue {|1|} p' \<lparr>clock = 1000100, invoked = [''k1'']\<rparr> \<and>
         failCount (keys p' ! 1) = 5 \<and> cooldownUntil (keys p' ! 1) = 1120100 \<and>
         \<not> isHealthy (keys p' ! 1) \<and> rateLimitHits (keys p' ! 1) = 0 \<and>
         lastErrorAt (keys p' ! 1) = 1000100 \<and> lastError (keys p' ! 1) = Some ''socket hang up'')"
proof -
  let ?w = "\<lparr>clock = 1000100, invoked = [''k0'']\<rparr>"
  have sel: "fst (getNextAvailableKey {||} (Date_now testRuntime world0) pool3) = Some 0"
    by (simp add: run_defs)
  have op: "testOperation (rettiwt (keys pool3 ! 0)) (enforceRequestDelay testRuntime (keys pool3 ! 0) world0)
      = (Rejected rateLimited, ?w)"
    by (simp add: run_defs)
  have loop: "fcard {||} < length (keys pool3)" by (simp add: pool3_def fcard_fempty)
  have rl: "isRateLimitError rateLimited"
    by (simp add: isRateLimitError_def rateLimited_def)
  have vals: "index (keys pool3 ! 0) = 0" "rateLimitHits (keys pool3 ! 0) = 0"
    "failCount (keys pool3 ! 0) = 0" "Date_now testRuntime ?w = 1000100"
    "message rateLimited = Some ''Too Many Requests''"
    by (simp_all add: pool3_def freshKeyState_def testRuntime_def rateLimited_def)
  from execute_failure_handling [of "{||}" testRuntime world0 pool3 0 testOperation rateLimited ?w
      "''fetch''", OF sel op loop] rl
  obtain p' where "executeBody testRuntime testOperation {||} pool3 world0
           = Continue (finsert (index (keys pool3 ! 0)) {||}) p' ?w"
    and "lastErrorAt (keys p' ! 0) = Date_now testRuntime ?w"
    and "lastError (keys p' ! 0) = Some (case message rateLimited of None \<Rightarrow> asString rateLimited
                     | Some m \<Rightarrow> if m = [] then asString rateLimited else m)"
    and "rateLimitHits (keys p' ! 0) = rateLimitHits (keys pool3 ! 0) + 1"
    and "cooldownUntil (keys p' ! 0) = Date_now testRuntime ?w + 15 * 60 * 1000"
    and "failCount (keys p' ! 0) = failCount (keys pool3 ! 0)"
    and "isHealthy (keys p' ! 0)"
    by blast
  then have A: "\<exists>p'. executeBody testRuntime testOperation {||} pool3 world0
           = Continue {|0|} p' ?w \<and>
         rateLimitHits (keys p' ! 0) = 1 \<and> cooldownUntil (keys p' ! 0) = 1900100 \<and>
         failCount (keys p' ! 0) = 0 \<and> isHealthy (keys p' ! 0) \<and>
         lastErrorAt (keys p' ! 0) = 1000100 \<and> lastError (keys p' ! 0) = Some ''Too Many Requests''"
    using vals by (intro exI [of _ p']) simp
  let ?v = "\<lparr>clock = 1000100, invoked = [''k1'']\<rparr>"
  have sel': "fst (getNextAvailableKey {||} (Date_now testRuntime world0) wornPool) = Some 1"
    by (simp add: run_defs wornPool_def)
  have op': "testOperation (rettiwt (keys wornPool ! 1))
        (enforceRequestDelay testRuntime (keys wornPool ! 1) world0) = (Rejected serverDown, ?v)"
    by (simp add: run_defs wornPool_def)
  have loop': "fcard {||} < length (keys wornPool)" by (simp add: wornPool_def fcard_fempty)
  have nrl: "\<not> isRateLimitError serverDown"
    by (simp add: isRateLimitError_def serverDown_def toLowerCase_def toLowerChar_def startsWith_def)
  have vals': "index (keys wornPool ! 1) = 1" "rateLimitHits (keys wornPool ! 1) = 0"
    "failCount (keys wornPool ! 1) = 4" "Date_now testRuntime ?v = 1000100"
    "message serverDown = Some ''socket hang up''"
    by (simp_all add: wornPool_def freshKeyState_def testRuntime_def serverDown_def)
  from execute_failure_handling [of "{||}" testRuntime world0 wornPool 1 testOperation serverDown ?v
      "''fetch''", OF sel' op' loop'] nrl
  obtain q' where "executeBody testRuntime testOperation {||} wornPool world0
           = Continue (finsert (index (keys wornPool ! 1)) {||}) q' ?v"
    and "lastErrorAt (keys q' ! 1) = Date_now testRuntime ?v"
    and "lastError (keys q' ! 1) = Some (case message serverDown of None \<Rightarrow> asString serverDown
                     | Some m \<Rightarrow> if m = [] then asString serverDown else m)"
    and "failCount (keys q' ! 1) = failCount (keys wornPool ! 1) + 1"
    and "cooldownUntil (keys q' ! 1) = Date_now testRuntime ?v + 2 * 60 * 1000"
    and "\<not> isHealthy (keys q' ! 1) \<longleftrightarrow> failCount (keys wornPool ! 1) + 1 \<ge> 5"
    and "rateLimitHits (keys q' ! 1) = rateLimitHits (keys wornPool ! 1)"
    by blast
  then have B: "\<exists>p'. executeBody testRuntime testOperation {||} wornPool world0
           = Continue {|1|} p' ?v \<and>
         failCount (keys p' ! 1) = 5 \<and> cooldownUntil (keys p' ! 1) = 1120100 \<and>
         \<not> isHealthy (keys p' ! 1) \<and> rateLimitHits (keys p' ! 1) = 0 \<and>
         lastErrorAt (keys p' ! 1) = 1000100 \<and> lastError (keys p' ! 1) = Some ''socket hang up''"
    using vals' by (intro exI [of _ q']) simp
  from A B show ?thesis by blast
qed

text \<open>
  Claim C3. In a pass of the loop in which no key is selected: when some record has
  \<open>cooldownUntil > now\<close>, the pass sleeps for the minimum of \<open>cooldownUntil - now\<close> over
  these records, capped at 30 seconds, adds one to \<open>consecutiveAllExhausted\<close>, empties the
  tried-set and ends with \<open>continue\<close>, and the condition of the loop holds again; when no
  record is cooling, the pass ends with \<open>break\<close> and the call throws.
\<close>

theorem execute_waits_for_cooldown:
  assumes sel: "fst (getNextAvailableKey T (Date_now rt w) p) = None"
      and loop: "fcard T < length (keys p)"
  shows "((\<exists>k\<in>set (keys p). cooldownUntil k > Date_now rt w) \<longrightarrow>
            executeBody rt operation T p w
              = Continue {||} (p\<lparr>consecutiveAllExhausted := consecutiveAllExhausted p + 1\<rparr>)
                  (sleep rt (min (Min ((\<lambda>k. cooldownUntil k - Date_now rt w) `
                                   {k \<in> set (keys p). cooldownUntil k > Date_now rt w}))
                                 (30 * 1000)) w) \<and>
            executeLoop rt operation name T p w
              = executeLoop rt operation name {||}
                  (p\<lparr>consecutiveAllExhausted := consecutiveAllExhausted p + 1\<rparr>)
                  (sleep rt (min (Min ((\<lambda>k. cooldownUntil k - Date_now rt w) `
                                   {k \<in> set (keys p). cooldownUntil k > Date_now rt w}))
                                 (30 * 1000)) w) \<and>
            fcard {||} < length (keys (p\<lparr>consecutiveAllExhausted := consecutiveAllExhausted p + 1\<rparr>))) \<and>
         (\<not> (\<exists>k\<in>set (keys p). cooldownUntil k > Date_now rt w) \<longrightarrow>
            executeBody rt operation T p w = Break p w \<and>
            executeLoop rt operation name T p w
              = Some (Inl (PoolExhaustedError (length (keys p)) name), p, w))"
proof (intro conjI impI)
  assume c: "\<exists>k\<in>set (keys p). cooldownUntil k > Date_now rt w"
  let ?m = "Min ((\<lambda>k. cooldownUntil k - Date_now rt w) `
                                   {k \<in> set (keys p). cooldownUntil k > Date_now rt w})"
  let ?p' = "p\<lparr>consecutiveAllExhausted := consecutiveAllExhausted p + 1\<rparr>"
  from getNextCooldownEnd_Min [OF c]
  have g: "getNextCooldownEnd (Date_now rt w) p = ?m" "getNextCooldownEnd (Date_now rt w) p > 0"
    by simp_all
  show body: "executeBody rt operation T p w = Continue {||} ?p' (sleep rt (min ?m (30 * 1000)) w)"
    using g by (simp add: executeBody_none [OF sel] ALL_KEYS_EXHAUSTED_WAIT_MS_def)
  show "executeLoop rt operation name T p w
      = executeLoop rt operation name {||} ?p' (sleep rt (min ?m (30 * 1000)) w)"
    by (subst executeLoop.simps) (simp add: loop body)
  from loop show "fcard {||} < length (keys ?p')"
    by (cases "keys p") (simp_all add: fcard_fempty)
next
  assume c: "\<not> (\<exists>k\<in>set (keys p). cooldownUntil k > Date_now rt w)"
  from getNextCooldownEnd_zero [OF c]
  show body: "executeBody rt operation T p w = Break p w"
    by (simp add: executeBody_none [OF sel])
  show "executeLoop rt operation name T p w
      = Some (Inl (PoolExhaustedError (length (keys p)) name), p, w)"
    by (subst executeLoop.simps) (simp add: loop body)
qed


theorem execute_waits_for_cooldown_witness:
  "fst (getNextAvailableKey {||} (Date_now testRuntime world0) coolingPool) = None \<and>
   executeBody testRuntime testOperation {||} coolingPool world0
     = Continue {||} (coolingPool\<lparr>consecutiveAllExhausted := 1\<rparr>) \<lparr>clock = 1030000, invoked = []\<rparr> \<and>
   fst (getNextAvailableKey {||} (Date_now testRuntime world0) unhealthyPool) = None \<and>
   executeLoop testRuntime testOperation ''fetch'' {||} unhealthyPool world0
     = Some (Inl (PoolExhaustedError 1 ''fetch''), unhealthyPool, world0)"
proof -
  let ?now = "Date_now testRuntime world0"
  have now: "?now = 1000000" by (simp add: testRuntime_def world0_def)
  have sel: "fst (getNextAvailableKey {||} ?now coolingPool) = None"
    by (simp add: run_defs)
  have loop: "fcard {||} < length (keys coolingPool)" by (simp add: coolingPool_def fcard_fempty)
  have cooling: "\<exists>k\<in>set (keys coolingPool). cooldownUntil k > ?now"
    by (simp add: run_defs)
  have "Min ((\<lambda>k. cooldownUntil k - ?now) ` {k \<in> set (keys coolingPool). cooldownUntil k > ?now})
      = getNextCooldownEnd ?now coolingPool"
    by (rule getNextCooldownEnd_Min(1) [OF cooling, symmetric])
  also have "\<dots> = 120200"
    by (simp add: getNextCooldownEnd_def run_defs)
  finally have m: "Min ((\<lambda>k. cooldownUntil k - ?now) ` {k \<in> set (keys coolingPool). cooldownUntil k > ?now})
      = 120200" .
  have sl: "sleep testRuntime (min 120200 (30 * 1000)) world0 = \<lparr>clock = 1030000, invoked = []\<rparr>"
    by (simp add: testRuntime_def world0_def)
  have ce: "consecutiveAllExhausted coolingPool + 1 = 1" by (simp add: coolingPool_def)
  from execute_waits_for_cooldown [of "{||}" testRuntime world0 coolingPool testOperation "''fetch''",
      OF sel loop] cooling
  have 1: "executeBody testRuntime testOperation {||} coolingPool world0
     = Continue {||} (coolingPool\<lparr>consecutiveAllExhausted := 1\<rparr>) \<lparr>clock = 1030000, invoked = []\<rparr>"
    unfolding m sl ce by blast
  have sel': "fst (getNextAvailableKey {||} ?now unhealthyPool) = None"
    by (simp add: run_defs)
  have loop': "fcard {||} < length (keys unhealthyPool)"
    by (simp add: unhealthyPool_def fcard_fempty)
  have nocool: "\<not> (\<exists>k\<in>set (keys unhealthyPool). cooldownUntil k > ?now)"
    by (simp add: run_defs)
  have len: "length (keys unhealthyPool) = 1" by (simp add: unhealthyPool_def)
  from execute_waits_for_cooldown [of "{||}" testRuntime world0 unhealthyPool testOperation "''fetch''",
      OF sel' loop'] nocool
  have 2: "executeLoop testRuntime testOperation ''fetch'' {||} unhealthyPool world0
     = Some (Inl (PoolExhaustedError 1 ''fetch''), unhealthyPool, world0)"
    unfolding len by blast
  from sel 1 sel' 2 show ?thesis by blast
qed

subsection \<open>What a pass, a call and a sequence of calls preserve\<close>

lemma executeBody_record_cases:
  assumes i: "i < length (keys p)"
      and p'_def: "p' = passPool (executeBody rt operation T p w)"
  shows "keys p' ! i = keys p ! i \<or>
         (fst (getNextAvailableKey T (Date_now rt w) p) = Some i \<and> isHealthy (keys p ! i) \<and>
          (\<exists>k1. failCount k1 = failCount (keys p ! i) \<and> isHealthy k1 = isHealthy (keys p ! i) \<and>
             (keys p' ! i = onSuccess k1 \<or>
              (\<exists>e w1 w2. operation (rettiwt (keys p ! i)) w1 = (Rejected e, w2) \<and>
                 keys p' ! i = onError e (Date_now rt w2) k1))))"
proof (cases "fst (getNextAvailableKey T (Date_now rt w) p)")
  case None
  then show ?thesis by (simp add: p'_def executeBody_none)
next
  case (Some idx)
  let ?w1 = "enforceRequestDelay rt (keys p ! idx) w"
  let ?k1 = "(keys p ! idx)\<lparr>lastUsedAt := Date_now rt ?w1,
                              totalRequests := totalRequests (keys p ! idx) + 1\<rparr>"
  have k1: "failCount ?k1 = failCount (keys p ! idx)" "isHealthy ?k1 = isHealthy (keys p ! idx)"
    by simp_all
  have h: "isHealthy (keys p ! idx)"
    using getNextAvailableKey_Some(2) [OF Some] by (simp add: eligible_def)
  show ?thesis
  proof (cases "i = idx")
    case False
    obtain s w2 where op: "operation (rettiwt (keys p ! idx)) ?w1 = (s, w2)" by force
    show ?thesis
    proof (cases s)
      case (Fulfilled r)
      with op False show ?thesis
        by (simp add: p'_def executeBody_fulfilled [where operation = operation, OF Some])
    next
      case (Rejected e)
      with op False show ?thesis
        by (simp add: p'_def executeBody_rejected [where operation = operation, OF Some])
    qed
  next
    case True
    obtain s w2 where op: "operation (rettiwt (keys p ! idx)) ?w1 = (s, w2)" by force
    show ?thesis
    proof (cases s)
      case (Fulfilled r)
      with op i True have "keys p' ! i = onSuccess ?k1"
        by (simp add: p'_def executeBody_fulfilled [where operation = operation, OF Some])
      with k1 h Some True show ?thesis by blast
    next
      case (Rejected e)
      with op i True have "keys p' ! i = onError e (Date_now rt w2) ?k1"
        by (simp add: p'_def executeBody_rejected [where operation = operation, OF Some])
      with k1 h Some True op Rejected show ?thesis by blast
    qed
  qed
qed

lemma executeBody_length:
  "length (keys (passPool (executeBody rt operation T p w))) = length (keys p)"
proof (cases "fst (getNextAvailableKey T (Date_now rt w) p)")
  case None
  then show ?thesis by (simp add: executeBody_none)
next
  case (Some idx)
  obtain s w2 where op: "operation (rettiwt (keys p ! idx)) (enforceRequestDelay rt (keys p ! idx) w) = (s, w2)"
    by force
  show ?thesis
  proof (cases s)
    case (Fulfilled r)
    with op show ?thesis
      by (simp add: executeBody_fulfilled [where operation = operation, OF Some])
  next
    case (Rejected e)
    with op show ?thesis
      by (simp add: executeBody_rejected [where operation = operation, OF Some])
  qed
qed

lemma executeLoop_rel:
  assumes ret: "executeLoop rt operation name T p w = Some y"
      and pass: "\<forall>T p w. fcard T < length (keys p) \<longrightarrow> R p (passPool (executeBody rt operation T p w))"
      and refl: "\<forall>p. R p p"
      and trans: "\<forall>a b c. R a b \<longrightarrow> R b c \<longrightarrow> R a c"
  shows "R p (fst (snd y))"
  using ret pass
proof (induction rule: executeLoop.raw_induct [rotated 1, consumes 1])
  case (1 loop rt operation name T p w y)
  note eq = "1.hyps" and ps = "1.prems"
  show ?case
  proof (cases "fcard T < length (keys p)")
    case False
    with eq have "y = (Inl (PoolExhaustedError (length (keys p)) name), p, w)" by simp
    with refl show ?thesis by simp
  next
    case True
    with ps have step: "R p (passPool (executeBody rt operation T p w))" by blast
    show ?thesis
    proof (cases "executeBody rt operation T p w")
      case (Continue T' p1 w1)
      with True eq have "loop rt operation name T' p1 w1 = Some y" by simp
      from "1.IH" [OF this ps] have "R p1 (fst (snd y))" .
      moreover from step Continue have "R p p1" by simp
      ultimately show ?thesis using trans by blast
    next
      case (Break p1 w1)
      with True eq have "y = (Inl (PoolExhaustedError (length (keys p1)) name), p1, w1)"
        by simp
      with step Break show ?thesis by simp
    next
      case (Return r p1 w1)
      with True eq have "y = (Inr r, p1, w1)" by simp
      with step Return show ?thesis by simp
    qed
  qed
qed

lemma execute_rel:
  assumes ret: "execute rt operation name p w = Some y"
      and pass: "\<forall>T p w. fcard T < length (keys p) \<longrightarrow> R p (passPool (executeBody rt operation T p w))"
      and refl: "\<forall>p. R p p"
      and trans: "\<forall>a b c. R a b \<longrightarrow> R b c \<longrightarrow> R a c"
  shows "R p (fst (snd y))"
proof (cases "\<not> initialized p \<or> length (keys p) = 0")
  case True
  with ret have "y = (Inl NotInitializedError, p, w)" by (simp add: execute_def)
  with refl show ?thesis by simp
next
  case False
  with ret have "executeLoop rt operation name {||} p w = Some y" by (simp add: execute_def)
  from executeLoop_rel [OF this pass refl trans] show ?thesis .
qed


lemma executeAll_rel:
  assumes ret: "executeAll rt calls p w = Some y"
      and pass: "\<forall>(between, operation, name) \<in> set calls. \<forall>T p w.
                   fcard T < length (keys p) \<longrightarrow> R p (passPool (executeBody rt operation T p w))"
      and refl: "\<forall>p. R p p"
      and trans: "\<forall>a b c. R a b \<longrightarrow> R b c \<longrightarrow> R a c"
  shows "R p (fst (snd y))"
  using ret pass
proof (induction calls arbitrary: p w y)
  case Nil
  then have "y = ([], p, w)" by simp
  with refl show ?case by simp
next
  case (Cons c calls)
  obtain between operation name where c: "c = (between, operation, name)" by (cases c) auto
  from Cons.prems(1) c obtain r p1 w1 where
    ex: "execute rt operation name p (between w) = Some (r, p1, w1)"
    by (auto split: option.splits)
  with Cons.prems(1) c obtain y1 where rest: "executeAll rt calls p1 w1 = Some y1"
    and y: "fst (snd y) = fst (snd y1)"
    by (auto split: option.splits)
  from Cons.prems(2) c have
    "\<forall>T p w. fcard T < length (keys p) \<longrightarrow> R p (passPool (executeBody rt operation T p w))"
    by simp
  from execute_rel [OF ex this refl trans] have 1: "R p p1" by simp
  from Cons.prems(2) have "\<forall>(between, operation, name) \<in> set calls. \<forall>T p w.
      fcard T < length (keys p) \<longrightarrow> R p (passPool (executeBody rt operation T p w))" by simp
  from Cons.IH [OF rest this] have "R p1 (fst (snd y1))" .
  with 1 y trans show ?case by metis
qed

lemma staysUnhealthy_pass:
  "staysUnhealthy i p (passPool (executeBody rt operation T p w))"
proof -
  have "\<not> isHealthy (keys (passPool (executeBody rt operation T p w)) ! i)"
    if "i < length (keys p)" "\<not> isHealthy (keys p ! i)"
    using executeBody_record_cases [OF that(1) refl, of rt operation T w] that(2) by auto
  then show ?thesis by (simp add: staysUnhealthy_def executeBody_length)
qed

text \<open>The stretches are the code of a pass: \<open>executeBody\<close> is their composition.\<close>

lemma executeBody_stretches:
  "executeBody rt operation triedKeys p w =
     (case getNextAvailableKey triedKeys (Date_now rt w) p of
        (None, p0) \<Rightarrow>
          (if getNextCooldownEnd (Date_now rt w) p0 > 0
           then Continue {||} (p0\<lparr>consecutiveAllExhausted := consecutiveAllExhausted p0 + 1\<rparr>)
                  (sleep rt (min (getNextCooldownEnd (Date_now rt w) p0) ALL_KEYS_EXHAUSTED_WAIT_MS) w)
           else Break p0 w)
      | (Some idx, p0) \<Rightarrow>
          (case operation (rettiwt (keys p0 ! idx)) (enforceRequestDelay rt (keys p0 ! idx) w) of
             (Fulfilled result, w2) \<Rightarrow>
               Return result
                 (afterFulfilled idx
                    (beforeOperation (Date_now rt (enforceRequestDelay rt (keys p0 ! idx) w)) idx p0))
                 w2
           | (Rejected error, w2) \<Rightarrow>
               Continue (finsert (index (keys p0 ! idx)) triedKeys)
                 (afterRejected error (Date_now rt w2) idx
                    (beforeOperation (Date_now rt (enforceRequestDelay rt (keys p0 ! idx) w)) idx p0))
                 w2))"
  by (simp add: executeBody_def beforeOperation_def afterFulfilled_def afterRejected_def Let_def
        split: prod.splits option.splits Settled.splits)


lemma updateKey_other:
  "length (keys (updateKey idx f p)) = length (keys p)"
  "idx \<noteq> i \<Longrightarrow> keys (updateKey idx f p) ! i = keys p ! i"
  by (simp_all add: updateKey_def)

lemma fromLoopHead_unhealthy:
  assumes i: "i < length (keys p)" and u: "\<not> isHealthy (keys p ! i)"
      and f: "fromLoopHead name now T p = (st, p')"
  shows "length (keys p') = length (keys p) \<and> \<not> isHealthy (keys p' ! i) \<and>
         (\<forall>idx T'. st = Delayed idx T' \<or> st = Invoked idx T' \<longrightarrow> idx \<noteq> i)"
proof (cases "fcard T < length (keys p)")
  case False
  with f u show ?thesis by (auto simp: fromLoopHead_def)
next
  case True
  show ?thesis
  proof (cases "fst (getNextAvailableKey T now p)")
    case None
    from getNextAvailableKey_None [OF None] f True u show ?thesis
      by (auto simp: fromLoopHead_def split: if_splits)
  next
    case (Some idx)
    from getNextAvailableKey_Some(2) [OF Some] u have ne: "idx \<noteq> i"
      by (auto simp: eligible_def)
    let ?p0 = "p\<lparr>currentIndex := (idx + 1) mod length (keys p)\<rparr>"
    from f True getNextAvailableKey_Some(3) [OF Some]
    have "(st = Delayed idx (finsert (index (keys p ! idx)) T) \<and> p' = ?p0) \<or>
          (st = Invoked idx (finsert (index (keys p ! idx)) T) \<and> p' = beforeOperation now idx ?p0)"
      by (auto simp: fromLoopHead_def Let_def split: if_splits)
    with ne u show ?thesis
      by (auto simp: beforeOperation_def updateKey_other)
  qed
qed

lemma notInFlightOn_update:
  assumes "notInFlightOn i calls"
      and "\<forall>idx T. st = Delayed idx T \<or> st = Invoked idx T \<longrightarrow> idx \<noteq> i"
  shows "notInFlightOn i (calls(c \<mapsto> (name, st)))"
  unfolding notInFlightOn_def
proof (intro allI impI)
  fix c' name' idx T
  assume a: "(calls(c \<mapsto> (name, st))) c' = Some (name', Delayed idx T) \<or>
             (calls(c \<mapsto> (name, st))) c' = Some (name', Invoked idx T)"
  show "idx \<noteq> i"
  proof (cases "c' = c")
    case True
    with a have "st = Delayed idx T \<or> st = Invoked idx T" by auto
    with assms(2) show ?thesis by blast
  next
    case False
    with a have "calls c' = Some (name', Delayed idx T) \<or> calls c' = Some (name', Invoked idx T)"
      by simp
    with assms(1) show ?thesis unfolding notInFlightOn_def by blast
  qed
qed

lemma resume_unhealthy:
  assumes i: "i < length (keys p)" and u: "\<not> isHealthy (keys p ! i)"
      and nf: "notInFlightOn i calls"
      and r: "resume now ev (calls, p) = (calls', p')"
  shows "length (keys p') = length (keys p) \<and> \<not> isHealthy (keys p' ! i) \<and>
         notInFlightOn i calls'"
proof (cases ev)
  case (Enter c name)
  show ?thesis
  proof (cases "\<not> initialized p \<or> length (keys p) = 0")
    case True
    with r Enter have c': "calls' = calls(c \<mapsto> (name, Ended (Inl NotInitializedError)))"
      and p': "p' = p" by auto
    from notInFlightOn_update [OF nf, of "Ended (Inl NotInitializedError)" c name] u
    show ?thesis unfolding c' p' by simp
  next
    case False
    obtain st p1 where f: "fromLoopHead name now {||} p = ((st :: 'a Call), p1)" by force
    from r Enter False f have c': "calls' = calls(c \<mapsto> (name, st))" and p': "p' = p1" by auto
    from fromLoopHead_unhealthy [OF i u f] notInFlightOn_update [OF nf, of st c name]
    show ?thesis unfolding c' p' by blast
  qed
next
  case (Wake c)
  show ?thesis
  proof (cases "calls c")
    case None
    with r Wake u nf show ?thesis by auto
  next
    case (Some entry)
    obtain name cs where entry: "entry = (name, cs)" by (cases entry) auto
    show ?thesis
    proof (cases cs)
      case (Delayed idx T)
      with Some entry nf have ne: "idx \<noteq> i" unfolding notInFlightOn_def by blast
      from r Wake Some entry Delayed
      have c': "calls' = calls(c \<mapsto> (name, Invoked idx T))" and p': "p' = beforeOperation now idx p"
        by auto
      from ne notInFlightOn_update [OF nf, of "Invoked idx T" c name]
      have "notInFlightOn i calls'" unfolding c' by simp
      with ne u show ?thesis unfolding p'
        by (simp add: beforeOperation_def updateKey_other)
    next
      case (Invoked idx T)
      with r Wake Some entry u nf show ?thesis by auto
    next
      case Waiting
      obtain st p1 where f: "fromLoopHead name now {||} p = ((st :: 'a Call), p1)" by force
      from r Wake Some entry Waiting f
      have c': "calls' = calls(c \<mapsto> (name, st))" and p': "p' = p1" by auto
      from fromLoopHead_unhealthy [OF i u f] notInFlightOn_update [OF nf, of st c name]
      show ?thesis unfolding c' p' by blast
    next
      case (Ended res)
      with r Wake Some entry u nf show ?thesis by auto
    qed
  qed
next
  case (Settle c outcome)
  show ?thesis
  proof (cases "calls c")
    case None
    with r Settle u nf show ?thesis by auto
  next
    case (Some entry)
    obtain name cs where entry: "entry = (name, cs)" by (cases entry) auto
    show ?thesis
    proof (cases cs)
      case (Delayed idx T)
      with r Settle Some entry u nf show ?thesis by auto
    next
      case Waiting
      with r Settle Some entry u nf show ?thesis by auto
    next
      case (Ended res)
      with r Settle Some entry u nf show ?thesis by auto
    next
      case (Invoked idx T)
      with Some entry nf have ne: "idx \<noteq> i" unfolding notInFlightOn_def by blast
      show ?thesis
      proof (cases outcome)
        case (Fulfilled result)
        with r Settle Some entry Invoked
        have c': "calls' = calls(c \<mapsto> (name, Ended (Inr result)))" and p': "p' = afterFulfilled idx p"
          by auto
        from notInFlightOn_update [OF nf, of "Ended (Inr result)" c name]
        have "notInFlightOn i calls'" unfolding c' by simp
        with ne u show ?thesis unfolding p'
          by (simp add: afterFulfilled_def updateKey_other)
      next
        case (Rejected error)
        let ?q = "afterRejected error now idx p"
        have q: "length (keys ?q) = length (keys p)" "keys ?q ! i = keys p ! i"
          using ne by (simp_all add: afterRejected_def updateKey_other)
        obtain st p1 where f: "fromLoopHead name now T ?q = ((st :: 'a Call), p1)" by force
        from r Settle Some entry Invoked Rejected f
        have c': "calls' = calls(c \<mapsto> (name, st))" and p': "p' = p1" by auto
        from i u q have "i < length (keys ?q)" "\<not> isHealthy (keys ?q ! i)" by simp_all
        from fromLoopHead_unhealthy [OF this f] q notInFlightOn_update [OF nf, of st c name]
        show ?thesis unfolding c' p' by auto
      qed
    qed
  qed
qed

lemma overlapped_unhealthy:
  assumes "i < length (keys p)" and "\<not> isHealthy (keys p ! i)"
      and "notInFlightOn i calls"
      and "overlapped events (calls, p) = (calls', p')"
  shows "length (keys p') = length (keys p) \<and> \<not> isHealthy (keys p' ! i)"
  using assms
proof (induction events arbitrary: calls p)
  case Nil
  then show ?case by simp
next
  case (Cons te events)
  obtain now ev where te: "te = (now, ev)" by (cases te) auto
  obtain calls1 p1 where r: "resume now ev (calls, p) = (calls1, p1)" by force
  from resume_unhealthy [OF Cons.prems(1,2,3) r]
  have 1: "length (keys p1) = length (keys p)" "\<not> isHealthy (keys p1 ! i)"
    "notInFlightOn i calls1" by simp_all
  with Cons.prems(1) have 2: "i < length (keys p1)" by simp
  from Cons.prems(4) te r have "overlapped events (calls1, p1) = (calls', p')" by simp
  from Cons.IH [OF 2 1(2,3) this] 1(1) show ?case by simp
qed

lemmas overlap_defs =
  fromLoopHead_def beforeOperation_def afterFulfilled_def afterRejected_def updateKey_def
  onSuccess_def onError_def isRateLimitError_def toLowerCase_def toLowerChar_def startsWith_def
  serverDown_def lastChancePool_def noCalls_def freshKeyState_def getNextAvailableKey_def
  scanKeys.simps isCoolingDown_def getNextCooldownEnd_def fcard_fempty fcard_finsert_if
  REQUEST_DELAY_MS_def ERROR_COOLDOWN_MS_def MAX_CONSECUTIVE_FAILS_def Let_def

text \<open>More definitions that running the model unfolds.\<close>

lemmas exec_defs =
  execute_def executeLoop.simps executeBody_def updateKey_def onSuccess_def onError_def
  getNextCooldownEnd_def isRateLimitError_def toLowerCase_def toLowerChar_def startsWith_def
  rateLimited_def serverDown_def newKeyState_def selectPool_def
  RATE_LIMIT_COOLDOWN_MS_def ERROR_COOLDOWN_MS_def MAX_CONSECUTIVE_FAILS_def
  ALL_KEYS_EXHAUSTED_WAIT_MS_def

subsection \<open>The claims about whole calls\<close>

text \<open>
  Claim C8, amended. An unhealthy record is never selected and no pass of the loop makes
  it healthy. So it is still unhealthy after any sequence of calls of \<open>execute\<close> made one
  after the other that settle, and, when calls overlap, after any run of them in which no
  call had given way with this record selected at the time it was found unhealthy. Only
  such a call, which selected the record while it was healthy, can make it healthy again
  by the statements after its \<open>await operation(...)\<close>; otherwise \<open>resetKey\<close> on its position
  and \<open>resetAll\<close> do.

  The claim as written has no sequence of calls at all restore the flag. On the pool
  \<open>lastChancePool\<close> a first call invokes the operation with the key, a second call is made
  two seconds later and invokes it with the same key, the first is rejected, which makes
  the record unhealthy, and the second is fulfilled, which makes it healthy.
\<close>

theorem unhealthy_until_reset:
  assumes i: "i < length (keys p)" and u: "\<not> isHealthy (keys p ! i)"
  shows "fst (getNextAvailableKey T now p) \<noteq> Some i \<and>
         \<not> isHealthy (keys (passPool (executeBody rt operation T p w)) ! i) \<and>
         (\<forall>rs p' w'. executeAll rt calls p w = Some (rs, p', w') \<longrightarrow>
            length (keys p') = length (keys p) \<and> \<not> isHealthy (keys p' ! i)) \<and>
         isHealthy (keys (resetKey (int i) p) ! i) \<and>
         isHealthy (keys (resetAll p) ! i) \<and>
         (\<forall>calls' p'. notInFlightOn i inFlight \<and> overlapped events (inFlight, p) = (calls', p') \<longrightarrow>
            length (keys p') = length (keys p) \<and> \<not> isHealthy (keys p' ! i))"
proof (intro conjI allI impI)
  show "fst (getNextAvailableKey T now p) \<noteq> Some i"
  proof
    assume "fst (getNextAvailableKey T now p) = Some i"
    from getNextAvailableKey_Some(2) [OF this] u show False by (simp add: eligible_def)
  qed
  from staysUnhealthy_pass [of i p rt operation T w] i u
  show "\<not> isHealthy (keys (passPool (executeBody rt operation T p w)) ! i)"
    by (simp add: staysUnhealthy_def)
  show "isHealthy (keys (resetKey (int i) p) ! i)" using i by (simp add: resetKey_def resetState_def)
  show "isHealthy (keys (resetAll p) ! i)" using i by (simp add: resetAll_def resetState_def)
next
  fix rs p' w'
  assume ret: "executeAll rt calls p w = Some (rs, p', w')"
  have "staysUnhealthy i p (fst (snd (rs, p', w')))"
  proof (rule executeAll_rel [OF ret])
    show "\<forall>(between, operation, name)\<in>set calls. \<forall>T p w.
       fcard T < length (keys p) \<longrightarrow> staysUnhealthy i p (passPool (executeBody rt operation T p w))"
      by (simp add: staysUnhealthy_pass split_beta)
    show "\<forall>p. staysUnhealthy i p p" by (simp add: staysUnhealthy_def)
    show "\<forall>a b c. staysUnhealthy i a b \<longrightarrow> staysUnhealthy i b c \<longrightarrow> staysUnhealthy i a c"
      by (simp add: staysUnhealthy_def)
  qed
  with i u show "length (keys p') = length (keys p)" "\<not> isHealthy (keys p' ! i)"
    by (simp_all add: staysUnhealthy_def)
next
  fix calls' p'
  assume a: "notInFlightOn i inFlight \<and> overlapped events (inFlight, p) = (calls', p')"
  then have nf: "notInFlightOn i inFlight" and ov: "overlapped events (inFlight, p) = (calls', p')"
    by simp_all
  from overlapped_unhealthy [OF i u nf ov]
  show "length (keys p') = length (keys p)" "\<not> isHealthy (keys p' ! i)" by simp_all
qed

theorem overlapping_success_restores_health_counterexample:
  "\<not> isHealthy (keys (snd (overlapped
        [(1000000, Enter 0 ''a''), (1002000, Enter 1 ''b''),
         (1002100, Settle 0 (Rejected serverDown))]
        (noCalls, lastChancePool))) ! 0) \<and>
   isHealthy (keys (snd (overlapped
        [(1000000, Enter 0 ''a''), (1002000, Enter 1 ''b''),
         (1002100, Settle 0 (Rejected serverDown)), (1002200, Settle 1 (Fulfilled ''tweets''))]
        (noCalls, lastChancePool))) ! 0) \<and>
   fst (overlapped
        [(1000000, Enter 0 ''a''), (1002000, Enter 1 ''b''),
         (1002100, Settle 0 (Rejected serverDown)), (1002200, Settle 1 (Fulfilled ''tweets''))]
        (noCalls, lastChancePool)) 1 = Some (''b'', Ended (Inr ''tweets''))"
  by (simp add: overlap_defs)


theorem unhealthy_until_reset_witness:
  "\<not> isHealthy (keys selectPool ! 1) \<and>
   (\<exists>p' w'. executeAll testRuntime [(id, testOperation, ''fetch'')] selectPool world0
              = Some ([Inr ''tweets via k2''], p', w') \<and>
           \<not> isHealthy (keys p' ! 1)) \<and>
   isHealthy (keys (resetKey 1 selectPool) ! 1) \<and>
   \<not> isHealthy (keys (snd (overlapped
        [(1000000, Enter 0 ''a''), (1002000, Enter 1 ''b''),
         (1002100, Settle 0 (Fulfilled ''tweets'')), (1002200, Settle 1 (Rejected serverDown))]
        (noCalls, selectPool))) ! 1)"
proof -
  let ?events = "[(1000000, Enter 0 ''a''), (1002000, Enter 1 ''b''),
         (1002100, Settle 0 (Fulfilled ''tweets'')), (1002200, Settle 1 (Rejected serverDown))]"
  have i: "1 < length (keys selectPool)" and u: "\<not> isHealthy (keys selectPool ! 1)"
    by (simp_all add: selectPool_def newKeyState_def)
  note T = unhealthy_until_reset [OF i u, of "{||}" 0 testRuntime testOperation world0
      "[(id, testOperation, ''fetch'')]" noCalls ?events]
  have nf: "notInFlightOn 1 noCalls" by (simp add: notInFlightOn_def noCalls_def)
  have "overlapped ?events (noCalls, selectPool)
      = (fst (overlapped ?events (noCalls, selectPool)), snd (overlapped ?events (noCalls, selectPool)))"
    by simp
  with T nf have ov: "\<not> isHealthy (keys (snd (overlapped ?events (noCalls, selectPool))) ! 1)"
    by blast
  have "\<exists>p' w'. executeAll testRuntime [(id, testOperation, ''fetch'')] selectPool world0
              = Some ([Inr ''tweets via k2''], p', w')"
    by (simp add: exec_defs run_defs)
  then obtain p' w' where run: "executeAll testRuntime [(id, testOperation, ''fetch'')] selectPool world0
              = Some ([Inr ''tweets via k2''], p', w')" by blast
  with T have "\<not> isHealthy (keys p' ! 1)" by blast
  moreover from T have "isHealthy (keys (resetKey 1 selectPool) ! 1)" by simp
  ultimately show ?thesis using u run ov by blast
qed

lemma initialize_nonempty:
  assumes "\<not> initialized p" and "initialize newRettiwt s p = (Inr (), p')"
  shows "initialized p' \<and> keys p' \<noteq> []"
proof -
  from assms obtain ks where ne: "keyList s \<noteq> []"
    and ks: "mapKeyList newRettiwt (enumerate 0 (keyList s)) = Inr ks"
    and p': "p' = p\<lparr>keys := ks, initialized := True\<rparr>"
    by (auto simp: initialize_def split: if_splits sum.splits)
  from mapKeyList_length [OF ks] have "length ks = length (keyList s)" by simp
  with ne have "ks \<noteq> []" by (cases ks) auto
  with p' show ?thesis by simp
qed

lemma executeLoop_error:
  assumes "executeLoop rt operation name T p w = Some y" and "fst y = Inl err"
  shows "err = PoolExhaustedError (length (keys p)) name"
  using assms
proof (induction rule: executeLoop.raw_induct [rotated 1, consumes 1])
  case (1 loop rt operation name T p w y)
  note eq = "1.hyps" and y = "1.prems"
  show ?case
  proof (cases "fcard T < length (keys p)")
    case False
    with eq y show ?thesis by auto
  next
    case True
    have len: "length (keys (passPool (executeBody rt operation T p w))) = length (keys p)"
      by (rule executeBody_length)
    show ?thesis
    proof (cases "executeBody rt operation T p w")
      case (Continue T' p1 w1)
      with True eq have "loop rt operation name T' p1 w1 = Some y" by simp
      from "1.IH" [OF this y] have "err = PoolExhaustedError (length (keys p1)) name" .
      with len Continue show ?thesis by simp
    next
      case (Break p1 w1)
      with True eq len y show ?thesis by auto
    next
      case (Return r p1 w1)
      with True eq y show ?thesis by auto
    qed
  qed
qed

text \<open>
  Claim C6, amended. Whatever a call of \<open>execute\<close> on an initialized pool throws is the
  pool-exhausted error, and it names the operation and the number of keys of the pool. The
  loop ends without a result in two ways, when the tried-set has as many members as the pool
  has keys and when a pass ends with \<open>break\<close>, and the call throws that error in both. (A
  pool that \<open>initialize\<close> has set up has a key, by \<open>initialize_nonempty\<close>, and no pass
  changes the number of keys, by \<open>executeBody_length\<close>.)

  The claim as written has the error name the number of keys tried during the call. The
  pool \<open>unhealthyPool\<close> is what five failed calls leave of the pool of the single key \<open>k1\<close>;
  the next call invokes the operation with no key at all, and its error names 1.
\<close>

theorem execute_throws_pool_size:
  "(initialized p \<and> keys p \<noteq> [] \<and> execute rt operation name p w = Some (Inl err, p', w') \<longrightarrow>
      err = PoolExhaustedError (length (keys p)) name) \<and>
   (\<not> fcard T < length (keys p) \<longrightarrow>
      executeLoop rt operation name T p w
        = Some (Inl (PoolExhaustedError (length (keys p)) name), p, w)) \<and>
   (fcard T < length (keys p) \<and> executeBody rt operation T p w = Break p1 w1 \<longrightarrow>
      executeLoop rt operation name T p w
        = Some (Inl (PoolExhaustedError (length (keys p)) name), p1, w1))"
proof (intro conjI impI)
  assume a: "initialized p \<and> keys p \<noteq> [] \<and> execute rt operation name p w = Some (Inl err, p', w')"
  then have "executeLoop rt operation name {||} p w = Some (Inl err, p', w')"
    by (auto simp: execute_def)
  from executeLoop_error [OF this] show "err = PoolExhaustedError (length (keys p)) name" by simp
next
  assume "\<not> fcard T < length (keys p)"
  then show "executeLoop rt operation name T p w
        = Some (Inl (PoolExhaustedError (length (keys p)) name), p, w)"
    by (subst executeLoop.simps) simp
next
  assume a: "fcard T < length (keys p) \<and> executeBody rt operation T p w = Break p1 w1"
  from executeBody_length [of rt operation T p w] a have "length (keys p1) = length (keys p)"
    by simp
  with a show "executeLoop rt operation name T p w
        = Some (Inl (PoolExhaustedError (length (keys p)) name), p1, w1)"
    by (subst executeLoop.simps) simp
qed

lemma unhealthyPool_reached:
  "executeAll testRuntime (replicate 5 (later, testOperation, ''fetch''))
       (snd (initialize testConstructor ''k1'' newKeyPoolManager)) \<lparr>clock = 0, invoked = []\<rparr>
     = Some (replicate 5 (Inl (PoolExhaustedError 1 ''fetch'')), unhealthyPool,
             \<lparr>clock = 750500, invoked = replicate 5 ''k1''\<rparr>)"
  by (simp add: exec_defs run_defs later_def initialize_def keyList_def trim_def isWhiteSpace_def
        newKeyPoolManager_def enumerate_eq_zip numeral_eq_Suc testConstructor_def)

theorem pool_exhausted_names_number_tried_counterexample:
  "execute testRuntime testOperation ''fetch'' unhealthyPool world0
     = Some (Inl (PoolExhaustedError 1 ''fetch''), unhealthyPool, world0) \<and>
   credentialsTried world0 world0 = 0"
  by (simp add: exec_defs run_defs credentialsTried_def)

theorem execute_throws_pool_size_witness:
  "execute testRuntime testOperation ''fetch'' unhealthyPool world0
     = Some (Inl (PoolExhaustedError (length (keys unhealthyPool)) ''fetch''), unhealthyPool, world0) \<and>
   executeLoop testRuntime testOperation ''fetch'' {|0|} unhealthyPool world0
     = Some (Inl (PoolExhaustedError 1 ''fetch''), unhealthyPool, world0)"
proof -
  have ini: "initialized unhealthyPool" "keys unhealthyPool \<noteq> []" "length (keys unhealthyPool) = 1"
    by (simp_all add: unhealthyPool_def)
  have run: "\<exists>err. execute testRuntime testOperation ''fetch'' unhealthyPool world0
     = Some (Inl err, unhealthyPool, world0)"
    by (simp add: exec_defs run_defs)
  then obtain err where e: "execute testRuntime testOperation ''fetch'' unhealthyPool world0
     = Some (Inl err, unhealthyPool, world0)" by blast
  note T = execute_throws_pool_size [of unhealthyPool testRuntime testOperation "''fetch''" world0
      err unhealthyPool world0 "{|0|}"]
  from T ini e have "err = PoolExhaustedError (length (keys unhealthyPool)) ''fetch''" by blast
  with e have 1: "execute testRuntime testOperation ''fetch'' unhealthyPool world0
     = Some (Inl (PoolExhaustedError (length (keys unhealthyPool)) ''fetch''), unhealthyPool, world0)"
    by simp
  have "\<not> fcard {|0::nat|} < length (keys unhealthyPool)" by (simp add: ini)
  with T have "executeLoop testRuntime testOperation ''fetch'' {|0|} unhealthyPool world0
     = Some (Inl (PoolExhaustedError (length (keys unhealthyPool)) ''fetch''), unhealthyPool, world0)"
    by blast
  with 1 ini(3) show ?thesis by simp
qed


lemma onError_rate_limit:
  "isRateLimitError e \<Longrightarrow> failCount (onError e now k) = failCount k \<and> isHealthy (onError e now k) = isHealthy k"
  by (simp add: onError_def Let_def)

lemma onError_generic:
  "\<not> isRateLimitError e \<Longrightarrow>
     failCount (onError e now k) = failCount k + 1 \<and>
     (isHealthy (onError e now k) \<longleftrightarrow> isHealthy k \<and> failCount k + 1 < 5)"
  by (auto simp: onError_def Let_def MAX_CONSECUTIVE_FAILS_def)

lemma noDemotion_pass:
  assumes "onlyRateLimits operation"
  shows "noDemotion p (passPool (executeBody rt operation T p w))"
proof -
  let ?p' = "passPool (executeBody rt operation T p w)"
  have "(isHealthy (keys p ! i) \<longrightarrow> isHealthy (keys ?p' ! i)) \<and>
        failCount (keys ?p' ! i) \<le> failCount (keys p ! i)" if i: "i < length (keys p)" for i
  proof -
    from executeBody_record_cases [OF i refl, of rt operation T w]
    consider "keys ?p' ! i = keys p ! i"
      | k1 where "failCount k1 = failCount (keys p ! i)" "isHealthy k1 = isHealthy (keys p ! i)"
          "keys ?p' ! i = onSuccess k1"
      | k1 e w1 w2 where "failCount k1 = failCount (keys p ! i)"
          "isHealthy k1 = isHealthy (keys p ! i)"
          "operation (rettiwt (keys p ! i)) w1 = (Rejected e, w2)"
          "keys ?p' ! i = onError e (Date_now rt w2) k1"
      by blast
    then show ?thesis
    proof cases
      case 1
      then show ?thesis by simp
    next
      case 2
      then show ?thesis by (simp add: onSuccess_def)
    next
      case 3
      from assms 3(3) have "isRateLimitError e" unfolding onlyRateLimits_def by blast
      from onError_rate_limit [OF this, of "Date_now rt w2" k1] 3 show ?thesis by simp
    qed
  qed
  then show ?thesis by (simp add: noDemotion_def executeBody_length)
qed

text \<open>
  Claim C10. A pass whose invocation is rejected with a rate-limit error leaves \<open>failCount\<close>
  and \<open>isHealthy\<close> of every record as they were. After a sequence of calls whose operations
  are rejected with rate-limit errors only, however many, every record that was healthy is
  healthy and no \<open>failCount\<close> has grown. A pass makes a healthy record unhealthy only when
  its invocation is rejected with an error that is not a rate limit and the record's
  \<open>failCount\<close> reaches 5 with it.
\<close>

theorem rate_limits_never_demote:
  "(fst (getNextAvailableKey T (Date_now rt w) p) = Some idx \<and>
    operation (rettiwt (keys p ! idx)) (enforceRequestDelay rt (keys p ! idx) w) = (Rejected e, w2) \<and>
    isRateLimitError e \<longrightarrow>
      (\<forall>i<length (keys p).
         failCount (keys (passPool (executeBody rt operation T p w)) ! i) = failCount (keys p ! i) \<and>
         isHealthy (keys (passPool (executeBody rt operation T p w)) ! i) = isHealthy (keys p ! i))) \<and>
   ((\<forall>(between, operation, name) \<in> set calls. onlyRateLimits operation) \<and>
    executeAll rt calls p w = Some (rs, p', w') \<longrightarrow> noDemotion p p') \<and>
   (i < length (keys p) \<and> isHealthy (keys p ! i) \<and>
    \<not> isHealthy (keys (passPool (executeBody rt operation T p w)) ! i) \<longrightarrow>
      (\<exists>e w1 w2. operation (rettiwt (keys p ! i)) w1 = (Rejected e, w2) \<and> \<not> isRateLimitError e) \<and>
      failCount (keys p ! i) + 1 \<ge> 5)"
proof (intro conjI impI allI)
  fix i
  assume a: "fst (getNextAvailableKey T (Date_now rt w) p) = Some idx \<and>
    operation (rettiwt (keys p ! idx)) (enforceRequestDelay rt (keys p ! idx) w) = (Rejected e, w2) \<and>
    isRateLimitError e" and i: "i < length (keys p)"
  let ?k1 = "(keys p ! idx)\<lparr>lastUsedAt := Date_now rt (enforceRequestDelay rt (keys p ! idx) w),
                              totalRequests := totalRequests (keys p ! idx) + 1\<rparr>"
  from a have body: "passPool (executeBody rt operation T p w)
      = p\<lparr>currentIndex := (idx + 1) mod length (keys p),
           keys := (keys p)[idx := onError e (Date_now rt w2) ?k1]\<rparr>"
    by (simp add: executeBody_rejected [where operation = operation and ?w2.0 = w2 and e = e])
  from a onError_rate_limit [of e "Date_now rt w2" ?k1]
  have k: "failCount (onError e (Date_now rt w2) ?k1) = failCount (keys p ! idx)"
    "isHealthy (onError e (Date_now rt w2) ?k1) = isHealthy (keys p ! idx)" by simp_all
  show "failCount (keys (passPool (executeBody rt operation T p w)) ! i) = failCount (keys p ! i)"
    using i k(1) by (cases "i = idx") (simp_all add: body)
  show "isHealthy (keys (passPool (executeBody rt operation T p w)) ! i) = isHealthy (keys p ! i)"
    using i k(2) by (cases "i = idx") (simp_all add: body)
next
  assume a: "(\<forall>(between, operation, name) \<in> set calls. onlyRateLimits operation) \<and>
    executeAll rt calls p w = Some (rs, p', w')"
  have "noDemotion p (fst (snd (rs, p', w')))"
  proof (rule executeAll_rel)
    from a show "executeAll rt calls p w = Some (rs, p', w')" by simp
    from a show "\<forall>(between, operation, name)\<in>set calls. \<forall>T p w.
       fcard T < length (keys p) \<longrightarrow> noDemotion p (passPool (executeBody rt operation T p w))"
      by (auto simp: noDemotion_pass)
    show "\<forall>p. noDemotion p p" by (simp add: noDemotion_def)
    show "\<forall>a b c. noDemotion a b \<longrightarrow> noDemotion b c \<longrightarrow> noDemotion a c"
      unfolding noDemotion_def by (metis order_trans)
  qed
  then show "noDemotion p p'" by simp
next
  assume a: "i < length (keys p) \<and> isHealthy (keys p ! i) \<and>
    \<not> isHealthy (keys (passPool (executeBody rt operation T p w)) ! i)"
  let ?p' = "passPool (executeBody rt operation T p w)"
  from a have i: "i < length (keys p)" by simp
  from executeBody_record_cases [OF i refl, of rt operation T w]
  consider "keys ?p' ! i = keys p ! i"
    | k1 where "keys ?p' ! i = onSuccess k1"
    | k1 e w1 w2 where "failCount k1 = failCount (keys p ! i)"
        "isHealthy k1 = isHealthy (keys p ! i)"
        "operation (rettiwt (keys p ! i)) w1 = (Rejected e, w2)"
        "keys ?p' ! i = onError e (Date_now rt w2) k1"
    by blast
  then have "(\<exists>e w1 w2. operation (rettiwt (keys p ! i)) w1 = (Rejected e, w2) \<and> \<not> isRateLimitError e) \<and>
      failCount (keys p ! i) + 1 \<ge> 5"
  proof cases
    case 1
    with a show ?thesis by simp
  next
    case 2
    with a show ?thesis by (simp add: onSuccess_def)
  next
    case 3
    have g: "\<not> isRateLimitError e"
    proof
      assume "isRateLimitError e"
      from onError_rate_limit [OF this, of "Date_now rt w2" k1] 3 a show False by simp
    qed
    from onError_generic [OF g, of "Date_now rt w2" k1] 3 a
    have "failCount (keys p ! i) + 1 \<ge> 5" by auto
    with g 3(3) show ?thesis by blast
  qed
  then show "\<exists>e w1 w2. operation (rettiwt (keys p ! i)) w1 = (Rejected e, w2) \<and> \<not> isRateLimitError e"
    and "failCount (keys p ! i) + 1 \<ge> 5" by blast+
qed


theorem rate_limits_never_demote_witness:
  "(failCount (keys (passPool (executeBody testRuntime testOperation {||} pool3 world0)) ! 0) = 0 \<and>
    isHealthy (keys (passPool (executeBody testRuntime testOperation {||} pool3 world0)) ! 0)) \<and>
   (\<exists>p' w'. executeAll testRuntime [(id, alwaysRateLimited, ''fetch'')] pool3 world0
              = Some ([Inl (PoolExhaustedError 3 ''fetch'')], p', w') \<and>
            isHealthy (keys p' ! 0) \<and> isHealthy (keys p' ! 1) \<and> isHealthy (keys p' ! 2) \<and>
            failCount (keys p' ! 0) = 0 \<and> failCount (keys p' ! 1) = 0 \<and>
            failCount (keys p' ! 2) = 0) \<and>
   (\<not> isHealthy (keys (passPool (executeBody testRuntime testOperation {||} wornPool world0)) ! 1) \<and>
    (\<exists>e w1 w2. testOperation (rettiwt (keys wornPool ! 1)) w1 = (Rejected e, w2) \<and>
               \<not> isRateLimitError e))"
proof -
  let ?v = "\<lparr>clock = 1000100, invoked = [''k0'']\<rparr>"
  let ?calls = "[(id, alwaysRateLimited, ''fetch'')]"
  let ?rs = "[Inl (PoolExhaustedError 3 ''fetch'')] :: (Error + string) list"
  have sel: "fst (getNextAvailableKey {||} (Date_now testRuntime world0) pool3) = Some 0"
    by (simp add: run_defs)
  have op: "testOperation (rettiwt (keys pool3 ! 0)) (enforceRequestDelay testRuntime (keys pool3 ! 0) world0)
      = (Rejected rateLimited, ?v)"
    by (simp add: run_defs)
  have rl: "isRateLimitError rateLimited"
    by (simp add: isRateLimitError_def rateLimited_def)
  have fresh: "\<forall>i<3. failCount (keys pool3 ! i) = 0 \<and> isHealthy (keys pool3 ! i)"
    by (simp add: pool3_def freshKeyState_def less_Suc_eq numeral_3_eq_3)
  have len: "length (keys pool3) = 3" by (simp add: pool3_def)
  have only: "\<forall>(between, operation, name) \<in> set ?calls. onlyRateLimits operation"
    using rl by (simp add: onlyRateLimits_def alwaysRateLimited_def)
  have "\<exists>p' w'. executeAll testRuntime ?calls pool3 world0 = Some (?rs, p', w')"
    by (simp add: exec_defs run_defs alwaysRateLimited_def)
  then obtain p' w' where run: "executeAll testRuntime ?calls pool3 world0 = Some (?rs, p', w')"
    by blast
  have w: "1 < length (keys wornPool)" "isHealthy (keys wornPool ! 1)"
    by (simp_all add: wornPool_def freshKeyState_def)
  have un: "\<not> isHealthy (keys (passPool (executeBody testRuntime testOperation {||} wornPool world0)) ! 1)"
    by (simp add: exec_defs run_defs wornPool_def)
  note A = rate_limits_never_demote [of "{||}" testRuntime world0 pool3 0 testOperation rateLimited
      ?v ?calls ?rs p' w' 0]
  note B = rate_limits_never_demote [of "{||}" testRuntime world0 wornPool 0 testOperation rateLimited
      ?v ?calls ?rs p' w' 1]
  from A [THEN conjunct1, THEN mp, OF conjI [OF sel conjI [OF op rl]]] fresh
  have 1: "failCount (keys (passPool (executeBody testRuntime testOperation {||} pool3 world0)) ! 0) = 0 \<and>
          isHealthy (keys (passPool (executeBody testRuntime testOperation {||} pool3 world0)) ! 0)"
    by (simp add: len)
  from A [THEN conjunct2, THEN conjunct1, THEN mp, OF conjI [OF only run]]
  have "noDemotion pool3 p'" .
  then have nd: "\<forall>i<3. isHealthy (keys p' ! i) \<and> failCount (keys p' ! i) = 0"
    using fresh by (simp add: noDemotion_def len)
  have "isHealthy (keys p' ! 0) \<and> isHealthy (keys p' ! 1) \<and> isHealthy (keys p' ! 2) \<and>
        failCount (keys p' ! 0) = 0 \<and> failCount (keys p' ! 1) = 0 \<and> failCount (keys p' ! 2) = 0"
    using nd [rule_format, of 0] nd [rule_format, of 1] nd [rule_format, of 2] by simp
  with run have 2: "\<exists>p' w'. executeAll testRuntime ?calls pool3 world0 = Some (?rs, p', w') \<and>
      isHealthy (keys p' ! 0) \<and> isHealthy (keys p' ! 1) \<and> isHealthy (keys p' ! 2) \<and>
      failCount (keys p' ! 0) = 0 \<and> failCount (keys p' ! 1) = 0 \<and> failCount (keys p' ! 2) = 0"
    by blast
  from B [THEN conjunct2, THEN conjunct2, THEN mp, OF conjI [OF w(1) conjI [OF w(2) un]]]
  have 3: "\<exists>e w1 w2. testOperation (rettiwt (keys wornPool ! 1)) w1 = (Rejected e, w2) \<and>
               \<not> isRateLimitError e" by (rule conjunct1)
  from 1 2 un 3 show ?thesis by blast
qed

end
